theory Spec2Isabelle
  imports Complex_Main "HOL-Library.Word" "HOL-Library.Multiset"
begin

unbundle bit_operations_syntax

section \<open>Errors\<close>

text \<open>
  Every abort, failed assertion and throwing lookup of the C++ sources is a value of
  this type; a function that can fail returns \<open>error + 'a\<close> with \<open>Inl\<close> the failure.
\<close>

datatype error =
    NoChildren              \<comment> \<open>"Called internal node constructor with no children."\<close>
  | TieObserved             \<comment> \<open>"Tie observed between ..." in the child sort of \<open>Node::Node\<close>\<close>
  | FailedMapInsertion      \<comment> \<open>\<open>SafeInsert\<close> or \<open>assert(m.insert(..).second)\<close> on a present key\<close>
  | KeyNotFound             \<comment> \<open>\<open>.at(key)\<close> on an absent key\<close>
  | BitsetIndexOutOfRange   \<comment> \<open>\<open>Bitset::set\<close> past the end\<close>
  | EmptyBitset             \<comment> \<open>\<open>Minorize\<close> of a bitset of length zero\<close>
  | NotTrifurcating         \<comment> \<open>"PCSSCounterOf was expecting a tree with a trifurcation at the root!"\<close>
  | NotBifurcating          \<comment> \<open>\<open>assert(children_.size() == 2)\<close> in the triple traversals\<close>
  | SBNMapsUnavailable      \<comment> \<open>"Please call ProcessLoadedTrees to prepare your SBN maps."\<close>
  | SampleIndexInvalidRange \<comment> \<open>"SampleIndex given an invalid range."\<close>
  | SampleIndexOutOfRange   \<comment> \<open>"SampleIndex sampled a value out of range."\<close>
  | VectorLengthError       \<comment> \<open>\<open>std::vector\<close> asked for more elements than it can hold\<close>
  | RatioGradientAssertion  \<comment> \<open>"gradientLogDensity[root_id-leaf_count]"\<close>
  | StackExhausted          \<comment> \<open>a recursion deeper than the call stack allows\<close>
  | IndexOutOfRange         \<comment> \<open>\<open>std::vector::at\<close> past the end\<close>

section \<open>Topologies: \<open>node.cpp\<close>\<close>

text \<open>
  A node owns its children (already sorted by the constructor), its index, its tag and
  its hash. The tag packs the maximal leaf id and the leaf count of the subtree
  (\<open>PackInts(max_leaf_id, leaf_count)\<close>); it is kept as the pair of the two unpacked
  values, both \<open>uint32_t\<close> in the source and natural numbers here (a subtree with
  \<open>2^32\<close> leaves is out of reach). The index and the hash are of type \<open>size_t\<close>.
\<close>

datatype Node =
  Node (Children: "Node list") (Index: "64 word") (Tag: "nat \<times> nat") (Hash: "64 word")

definition MaxLeafID :: "Node \<Rightarrow> nat" where
  "MaxLeafID n = fst (Tag n)"

definition LeafCount :: "Node \<Rightarrow> nat" where
  "LeafCount n = snd (Tag n)"

definition IsLeaf :: "Node \<Rightarrow> bool" where
  "IsLeaf n = (Children n = [])"

text \<open>\<open>Node::SOHash\<close>: three rounds on a \<open>uint32_t\<close>.\<close>

definition SOHash :: "32 word \<Rightarrow> 32 word" where
  "SOHash x0 =
     (let x1 = ((drop_bit 16 x0) XOR x0) * 0x45d9f3b;
          x2 = ((drop_bit 16 x1) XOR x1) * 0x45d9f3b
      in (drop_bit 16 x2) XOR x2)"

text \<open>\<open>Node::SORotate\<close>: rotate a \<open>size_t\<close> left by \<open>c\<close> bits, \<open>c\<close> masked to the width.\<close>

definition SORotate :: "64 word \<Rightarrow> 32 word \<Rightarrow> 64 word" where
  "SORotate n c0 =
     (let mask = (63 :: 32 word);
          c = c0 AND mask
      in (push_bit (unat c) n) OR (drop_bit (unat ((- c) AND mask)) n))"

text \<open>\<open>Node::Node(uint32_t leaf_id)\<close>, reached through \<open>Node::Leaf\<close>.\<close>

definition Leaf :: "nat \<Rightarrow> Node" where
  "Leaf leaf_id = Node [] (of_nat leaf_id) (leaf_id, 1) (ucast (SOHash (of_nat leaf_id)))"

text \<open>
  \<open>Node::Node(NodePtrVec children, size_t index)\<close>, reached through \<open>Node::Join\<close>.
  The comparator handed to \<open>std::sort\<close> aborts when it is given two children with the
  same maximal leaf id. A comparison sort has to compare two elements of equal key with
  each other (otherwise it could not tell which of the two orders it was given), so the
  constructor aborts exactly when the keys are not pairwise distinct; with distinct keys
  the sorted sequence is the unique increasing one.
\<close>

definition Join :: "Node list \<Rightarrow> 64 word \<Rightarrow> error + Node" where
  "Join children index =
     (if children = [] then Inl NoChildren
      else if \<not> distinct (map MaxLeafID children) then Inl TieObserved
      else
        let sorted_children = sort_key MaxLeafID children;
            max_leaf_id = MaxLeafID (last sorted_children);
            leaf_count = fold (\<lambda>child acc. acc + LeafCount child) sorted_children 0;
            hash = fold (\<lambda>child h. h XOR Hash child) sorted_children 0
        in Inr (Node sorted_children index (max_leaf_id, leaf_count) (SORotate hash 1)))"

text \<open>
  \<open>Node::operator==\<close>: the hashes agree, the numbers of children agree, and the
  children are equal position by position. Index and tag are not looked at.
\<close>

fun Node_eq :: "Node \<Rightarrow> Node \<Rightarrow> bool"
  and Nodes_eq :: "Node list \<Rightarrow> Node list \<Rightarrow> bool" where
  "Node_eq (Node cs i t h) (Node ds j u k) =
     (if h \<noteq> k then False
      else if length cs \<noteq> length ds then False
      else Nodes_eq cs ds)"
| "Nodes_eq [] ds = True"
| "Nodes_eq (c # cs) [] = True"
| "Nodes_eq (c # cs) (d # ds) = (if \<not> Node_eq c d then False else Nodes_eq cs ds)"

text \<open>
  A construction recipe: the calls of \<open>Node::Leaf\<close> and \<open>Node::Join\<close> that a parser or
  a test makes, with the children in the order in which they are handed over.
\<close>

datatype recipe = RLeaf nat | RJoin "recipe list" "64 word"

text \<open>Running a list of fallible constructions from left to right; the first failure wins.\<close>

fun sequence_results :: "(error + 'a) list \<Rightarrow> error + 'a list" where
  "sequence_results [] = Inr []"
| "sequence_results (r # rs) =
     (case r of
        Inl e \<Rightarrow> Inl e
      | Inr x \<Rightarrow> (case sequence_results rs of Inl e \<Rightarrow> Inl e | Inr xs \<Rightarrow> Inr (x # xs)))"

fun construct :: "recipe \<Rightarrow> error + Node" where
  "construct (RLeaf leaf_id) = Inr (Leaf leaf_id)"
| "construct (RJoin rs index) =
     (case sequence_results (map construct rs) of
        Inl e \<Rightarrow> Inl e
      | Inr children \<Rightarrow> Join children index)"

text \<open>
  Two recipes describe the same topology with the children supplied in a different
  order when, at every internal node, the child recipes of one are a rearrangement of
  recipes that match the child recipes of the other one by one.
\<close>

inductive same_up_to_child_order :: "recipe \<Rightarrow> recipe \<Rightarrow> bool" where
  leaf: "same_up_to_child_order (RLeaf i) (RLeaf i)"
| join: "list_all2 same_up_to_child_order rs ss \<Longrightarrow> mset ss = mset ts
         \<Longrightarrow> same_up_to_child_order (RJoin rs k) (RJoin ts k)"

section \<open>The topology counter\<close>

text \<open>
  Modelled from the spec: \<open>TreeCollection::TopologyCounter\<close> is declared in
  \<open>tree_collection.hpp\<close> and exercised by its test, but its body is not among the
  sources. The spec describes a mapping from distinct topology (by structural equality,
  not object identity) to a positive multiplicity: every tree of the collection either
  raises the multiplicity of the entry whose key is equal to its topology under
  \<open>Node::operator==\<close>, or opens a new entry with multiplicity one. Entries are kept in
  the order in which their keys were first seen.
\<close>

fun increment_topology :: "Node \<Rightarrow> (Node \<times> nat) list \<Rightarrow> (Node \<times> nat) list" where
  "increment_topology t [] = [(t, 1)]"
| "increment_topology t ((k, c) # m) =
     (if Node_eq k t then (k, c + 1) # m else (k, c) # increment_topology t m)"

definition TopologyCounter :: "Node list \<Rightarrow> (Node \<times> nat) list" where
  "TopologyCounter topologies = fold increment_topology topologies []"

text \<open>
  The first two topologies of \<open>Node::ExampleTopologies\<close>: \<open>(0,1,(2,3))\<close>, and the same
  tree with the children of both internal nodes handed over in the other order.
\<close>

definition example_topology_0 :: recipe where
  "example_topology_0 = RJoin [RLeaf 0, RLeaf 1, RJoin [RLeaf 2, RLeaf 3] 0] 0"

definition example_topology_1 :: recipe where
  "example_topology_1 = RJoin [RLeaf 1, RLeaf 0, RJoin [RLeaf 3, RLeaf 2] 0] 0"

section \<open>Failure and containers\<close>

text \<open>Sequencing of fallible steps: the first failure ends the computation.\<close>

abbreviation then_do :: "error + 'a \<Rightarrow> ('a \<Rightarrow> error + 'b) \<Rightarrow> error + 'b" where
  "then_do r f \<equiv> (case r of Inl e \<Rightarrow> Inl e | Inr x \<Rightarrow> f x)"

text \<open>A \<open>for\<close> loop whose body may fail, over the elements in iteration order.\<close>

fun for_each :: "('a \<Rightarrow> 's \<Rightarrow> error + 's) \<Rightarrow> 'a list \<Rightarrow> 's \<Rightarrow> error + 's" where
  "for_each body [] st = Inr st"
| "for_each body (x # xs) st = then_do (body x st) (for_each body xs)"

text \<open>
  A \<open>std::unordered_map\<close> is kept as the list of its entries in iteration order, with at
  most one entry per key; a new key goes to the end. \<open>SafeInsert\<close> comes from
  \<open>sugar.hpp\<close>, which is not among the sources: like the idiom
  \<open>assert(m.insert({k, v}).second)\<close> of \<open>build.cpp\<close> it inserts and fails when the key is
  already there. \<open>map_at\<close> is \<open>std::unordered_map::at\<close>, which throws on an absent key.
\<close>

definition SafeInsert :: "('k \<times> 'v) list \<Rightarrow> 'k \<Rightarrow> 'v \<Rightarrow> error + ('k \<times> 'v) list" where
  "SafeInsert m k v = (if k \<in> set (map fst m) then Inl FailedMapInsertion else Inr (m @ [(k, v)]))"

definition map_at :: "('k \<times> 'v) list \<Rightarrow> 'k \<Rightarrow> error + 'v" where
  "map_at m k = (case map_of m k of None \<Rightarrow> Inl KeyNotFound | Some v \<Rightarrow> Inr v)"

section \<open>Bitsets\<close>

text \<open>
  Modelled from the spec: the \<open>Bitset\<close> class (\<open>bitset.hpp\<close>) is not among the sources.
  The spec gives a fixed-length bit vector with complement, concatenation and a
  bit-lexicographic order; a subsplit is the concatenation of two clade bitsets of equal
  length, rotation swaps its two chunks, a clade of cardinality one is a leaf, and
  "minorize" picks the orientation of a bipartition that does not contain taxon 0.
  Bit \<open>i\<close> of a clade is the membership of taxon \<open>i\<close>.
\<close>

type_synonym Bitset = "bool list"

definition Bitset_zeros :: "nat \<Rightarrow> Bitset" where
  "Bitset_zeros n = replicate n False"

definition Bitset_set :: "Bitset \<Rightarrow> nat \<Rightarrow> error + Bitset" where
  "Bitset_set x i = (if i < length x then Inr (x[i := True]) else Inl BitsetIndexOutOfRange)"

definition Bitset_or :: "Bitset \<Rightarrow> Bitset \<Rightarrow> Bitset" where
  "Bitset_or x y = map (\<lambda>(a, b). a \<or> b) (zip x y)"

definition Bitset_and :: "Bitset \<Rightarrow> Bitset \<Rightarrow> Bitset" where
  "Bitset_and x y = map (\<lambda>(a, b). a \<and> b) (zip x y)"

definition Bitset_flip :: "Bitset \<Rightarrow> Bitset" where
  "Bitset_flip x = map Not x"

definition Minorize :: "Bitset \<Rightarrow> Bitset" where
  "Minorize x = (case x of [] \<Rightarrow> [] | b # bs \<Rightarrow> if b then Bitset_flip x else x)"

text \<open>\<open>this->CopyFrom(other, begin, flip)\<close> overwrites the bits from \<open>begin\<close> on with \<open>other\<close>,
  complemented when \<open>flip\<close> is set.\<close>

definition CopyFrom :: "Bitset \<Rightarrow> Bitset \<Rightarrow> nat \<Rightarrow> bool \<Rightarrow> Bitset" where
  "CopyFrom this other begin flip =
     take begin this @ (if flip then Bitset_flip other else other)
       @ drop (begin + length other) this"

fun Bitset_less :: "Bitset \<Rightarrow> Bitset \<Rightarrow> bool" where
  "Bitset_less [] [] = False"
| "Bitset_less [] (y # ys) = True"
| "Bitset_less (x # xs) [] = False"
| "Bitset_less (x # xs) (y # ys) = (if x = y then Bitset_less xs ys else (\<not> x \<and> y))"

text \<open>\<open>std::min(a, b)\<close> returns \<open>b\<close> when \<open>b < a\<close> and \<open>a\<close> otherwise.\<close>

definition Bitset_min :: "Bitset \<Rightarrow> Bitset \<Rightarrow> Bitset" where
  "Bitset_min a b = (if Bitset_less b a then b else a)"

definition SplitChunk :: "Bitset \<Rightarrow> nat \<Rightarrow> Bitset" where
  "SplitChunk subsplit i =
     (let n = length subsplit div 2 in take n (drop (i * n) subsplit))"

definition RotateSubsplit :: "Bitset \<Rightarrow> Bitset" where
  "RotateSubsplit subsplit = SplitChunk subsplit 1 @ SplitChunk subsplit 0"

definition SingletonOption :: "Bitset \<Rightarrow> nat option" where
  "SingletonOption x =
     (case filter (\<lambda>i. x ! i) [0 ..< length x] of [i] \<Rightarrow> Some i | _ \<Rightarrow> None)"

text \<open>The child subsplit named by a parent subsplit and the child clade of a PCSS: the
  child clade, and what is left of the parent's second chunk.\<close>

definition ChildSubsplit :: "Bitset \<Rightarrow> Bitset \<Rightarrow> Bitset" where
  "ChildSubsplit parent child =
     child @ Bitset_and (SplitChunk parent 1) (Bitset_flip child)"

text \<open>
  A counter with default value zero (\<open>BitsetUInt32Dict\<close>): \<open>increment\<close> adds to the entry
  of the key, which starts from the default when the key is new. The counts are
  \<open>uint32_t\<close>: they are kept as natural numbers, and the addition is the one of the
  machine, which wraps around at \<open>2^32\<close>.
\<close>

definition uint32_add :: "nat \<Rightarrow> nat \<Rightarrow> nat" where
  "uint32_add a b = unat ((of_nat a :: 32 word) + of_nat b)"

fun increment :: "('k \<times> nat) list \<Rightarrow> 'k \<Rightarrow> nat \<Rightarrow> ('k \<times> nat) list" where
  "increment [] key cnt = [(key, uint32_add 0 cnt)]"
| "increment ((k, c) # m) key cnt =
     (if k = key then (k, uint32_add c cnt) # m else (k, c) # increment m key cnt)"

section \<open>Traversals: \<open>node.cpp\<close>\<close>

text \<open>\<open>Node::PreOrder\<close> and \<open>Node::PostOrder\<close>, as the sequence of nodes handed to the
  callback.\<close>

fun PreOrder :: "Node \<Rightarrow> Node list" where
  "PreOrder (Node cs i t h) = Node cs i t h # concat (map PreOrder cs)"

fun PostOrder :: "Node \<Rightarrow> Node list" where
  "PostOrder (Node cs i t h) = concat (map PostOrder cs) @ [Node cs i t h]"

text \<open>
  One call of a \<open>PCSSFun\<close>: the eight arguments of the source, and the position of the
  virtual root that the comment above the call names. The position is not handed to
  the callback by the source; it is carried along for the reader of the emissions.
\<close>

datatype virtual_root =
    OnEdge Node       \<comment> \<open>"Virtual root on node's edge"\<close>
  | RootIn Node       \<comment> \<open>"Virtual root in" the subtree hanging from this node\<close>
  | UpTheTree Node    \<comment> \<open>"Virtual root up the tree": above this (parent) node\<close>

datatype pcss_call = PCSSCall
  (sister_node: Node) (sister_direction: bool)
  (focal_node: Node) (focal_direction: bool)
  (child0_node: Node) (child0_direction: bool)
  (child1_node: Node) (child1_direction: bool)
  (position: virtual_root)

text \<open>\<open>Node::TriplePreOrderInternal\<close>: a leaf makes no call; any other node has to have
  exactly two children.\<close>

fun TriplePreOrderInternal ::
  "(Node \<Rightarrow> Node \<Rightarrow> Node \<Rightarrow> 's \<Rightarrow> error + 's) \<Rightarrow> Node \<Rightarrow> 's \<Rightarrow> error + 's" where
  "TriplePreOrderInternal f (Node [] i t h) st = Inr st"
| "TriplePreOrderInternal f (Node [c0, c1] i t h) st =
     then_do (f (Node [c0, c1] i t h) c1 c0 st) (\<lambda>st1.
     then_do (TriplePreOrderInternal f c0 st1) (\<lambda>st2.
     then_do (f (Node [c0, c1] i t h) c0 c1 st2) (\<lambda>st3.
     TriplePreOrderInternal f c1 st3)))"
| "TriplePreOrderInternal f (Node cs i t h) st = Inl NotBifurcating"

text \<open>\<open>Node::TriplePreOrder\<close>: the node has to have exactly three children.\<close>

fun TriplePreOrder ::
  "(Node \<Rightarrow> Node \<Rightarrow> Node \<Rightarrow> 's \<Rightarrow> error + 's) \<Rightarrow>
   (Node \<Rightarrow> Node \<Rightarrow> Node \<Rightarrow> 's \<Rightarrow> error + 's) \<Rightarrow> Node \<Rightarrow> 's \<Rightarrow> error + 's" where
  "TriplePreOrder f_root f_internal (Node [c0, c1, c2] i t h) st =
     then_do (f_root c0 c1 c2 st) (\<lambda>st1.
     then_do (f_root c1 c2 c0 st1) (\<lambda>st2.
     then_do (f_root c2 c0 c1 st2) (\<lambda>st3.
     for_each (TriplePreOrderInternal f_internal) [c0, c1, c2] st3)))"
| "TriplePreOrder f_root f_internal (Node cs i t h) st = Inl NotTrifurcating"

text \<open>The two lambdas of \<open>Node::PCSSPreOrder\<close>.\<close>

definition PCSS_f_root ::
  "(pcss_call \<Rightarrow> 's \<Rightarrow> error + 's) \<Rightarrow> Node \<Rightarrow> Node \<Rightarrow> Node \<Rightarrow> 's \<Rightarrow> error + 's" where
  "PCSS_f_root f node0 node1 node2 st =
     then_do (f (PCSSCall node2 False node2 True node0 False node1 False (OnEdge node2)) st)
     (\<lambda>st1.
       if \<not> IsLeaf node2 then
         (case Children node2 of
            [child0, child1] \<Rightarrow>
              then_do (f (PCSSCall node0 False node2 False child0 False child1 False
                            (RootIn node1)) st1) (\<lambda>st2.
              then_do (f (PCSSCall node1 False node2 False child0 False child1 False
                            (RootIn node0)) st2) (\<lambda>st3.
              then_do (f (PCSSCall node2 True node2 False child0 False child1 False
                            (OnEdge node2)) st3) (\<lambda>st4.
              then_do (f (PCSSCall child1 False node2 True node0 False node1 False
                            (RootIn child0)) st4) (\<lambda>st5.
              f (PCSSCall child0 False node2 True node0 False node1 False
                            (RootIn child1)) st5))))
          | _ \<Rightarrow> Inl NotBifurcating)
       else Inr st1)"

definition PCSS_f_internal ::
  "(pcss_call \<Rightarrow> 's \<Rightarrow> error + 's) \<Rightarrow> Node \<Rightarrow> Node \<Rightarrow> Node \<Rightarrow> 's \<Rightarrow> error + 's" where
  "PCSS_f_internal f parent sister node st =
     then_do (f (PCSSCall node False node True parent True sister False (OnEdge node)) st)
     (\<lambda>st1.
       if \<not> IsLeaf node then
         (case Children node of
            [child0, child1] \<Rightarrow>
              then_do (f (PCSSCall sister False node False child0 False child1 False
                            (UpTheTree parent)) st1) (\<lambda>st2.
              then_do (f (PCSSCall parent True node False child0 False child1 False
                            (RootIn sister)) st2) (\<lambda>st3.
              then_do (f (PCSSCall node True node False child0 False child1 False
                            (OnEdge node)) st3) (\<lambda>st4.
              then_do (f (PCSSCall child1 False node True sister False parent True
                            (RootIn child0)) st4) (\<lambda>st5.
              f (PCSSCall child0 False node True sister False parent True
                            (RootIn child1)) st5))))
          | _ \<Rightarrow> Inl NotBifurcating)
       else Inr st1)"

definition PCSSPreOrder :: "(pcss_call \<Rightarrow> 's \<Rightarrow> error + 's) \<Rightarrow> Node \<Rightarrow> 's \<Rightarrow> error + 's" where
  "PCSSPreOrder f topology st =
     TriplePreOrder (PCSS_f_root f) (PCSS_f_internal f) topology st"

text \<open>The calls that \<open>PCSSPreOrder\<close> makes, in order: the traversal run with a callback
  that only records its argument.\<close>

definition PCSS_calls :: "Node \<Rightarrow> error + pcss_call list" where
  "PCSS_calls topology = PCSSPreOrder (\<lambda>call log. Inr (log @ [call])) topology []"

section \<open>Rootsplit and PCSS counters: \<open>build.cpp\<close>\<close>

type_synonym TagBitsetMap = "((nat \<times> nat) \<times> Bitset) list"

text \<open>
  \<open>TagBitsetMapOf\<close>: one post-order pass; the bitset of a leaf has the bit of its id
  set, the bitset of any other node is the union of the bitsets of its children, which
  are looked up by tag; the result is stored under the tag of the node, and storing
  under a tag that is already there fails.
\<close>

definition TagBitsetMapOf_visit :: "nat \<Rightarrow> Node \<Rightarrow> TagBitsetMap \<Rightarrow> error + TagBitsetMap" where
  "TagBitsetMapOf_visit leaf_count n m =
     then_do
       (if IsLeaf n then Bitset_set (Bitset_zeros leaf_count) (MaxLeafID n)
        else for_each (\<lambda>child x. then_do (map_at m (Tag child)) (\<lambda>y. Inr (Bitset_or x y)))
               (Children n) (Bitset_zeros leaf_count))
       (\<lambda>x. SafeInsert m (Tag n) x)"

definition TagBitsetMapOf :: "Node \<Rightarrow> error + TagBitsetMap" where
  "TagBitsetMapOf t = for_each (TagBitsetMapOf_visit (LeafCount t)) (PostOrder t) []"

text \<open>\<open>RootsplitCounterOf\<close>: for every topology and every node below its root, the
  minorized bitset of the node is incremented by the multiplicity of the topology.\<close>

definition RootsplitCounter_Aux ::
  "TagBitsetMap \<Rightarrow> nat \<Rightarrow> Node \<Rightarrow> (Bitset \<times> nat) list \<Rightarrow> error + (Bitset \<times> nat) list" where
  "RootsplitCounter_Aux tag_to_bitset cnt n rootsplit_counter =
     then_do (map_at tag_to_bitset (Tag n))
       (\<lambda>split. Inr (increment rootsplit_counter (Minorize split) cnt))"

definition RootsplitCounter_topology ::
  "Node \<times> nat \<Rightarrow> (Bitset \<times> nat) list \<Rightarrow> error + (Bitset \<times> nat) list" where
  "RootsplitCounter_topology iter rootsplit_counter =
     (let topology = fst iter; cnt = snd iter in
      then_do (TagBitsetMapOf topology) (\<lambda>tag_to_bitset.
        for_each (\<lambda>child. for_each (RootsplitCounter_Aux tag_to_bitset cnt) (PreOrder child))
          (Children topology) rootsplit_counter))"

definition RootsplitCounterOf :: "(Node \<times> nat) list \<Rightarrow> error + (Bitset \<times> nat) list" where
  "RootsplitCounterOf topologies = for_each RootsplitCounter_topology topologies []"

text \<open>The parent bitset and the child bitset that the callback of \<open>PCSSCounterOf\<close>
  builds from its eight arguments.\<close>

definition PCSS_parent :: "TagBitsetMap \<Rightarrow> nat \<Rightarrow> pcss_call \<Rightarrow> error + Bitset" where
  "PCSS_parent tag_to_bitset leaf_count call =
     then_do (map_at tag_to_bitset (Tag (sister_node call))) (\<lambda>sister.
     then_do (map_at tag_to_bitset (Tag (focal_node call))) (\<lambda>focal.
       Inr (CopyFrom
              (CopyFrom (Bitset_zeros (2 * leaf_count)) sister 0 (sister_direction call))
              focal leaf_count (focal_direction call))))"

definition PCSS_child :: "TagBitsetMap \<Rightarrow> pcss_call \<Rightarrow> error + Bitset" where
  "PCSS_child tag_to_bitset call =
     then_do (map_at tag_to_bitset (Tag (child0_node call))) (\<lambda>b0.
     then_do (map_at tag_to_bitset (Tag (child1_node call))) (\<lambda>b1.
       let child0 = (if child0_direction call then Bitset_flip b0 else b0);
           child1 = (if child1_direction call then Bitset_flip b1 else b1)
       in Inr (Bitset_min child0 child1)))"

type_synonym PCSSDict = "(Bitset \<times> (Bitset \<times> nat) list) list"

fun increment_child :: "PCSSDict \<Rightarrow> Bitset \<Rightarrow> Bitset \<Rightarrow> nat \<Rightarrow> PCSSDict" where
  "increment_child [] parent child cnt = []"
| "increment_child ((p, d) # m) parent child cnt =
     (if p = parent then (p, increment d child cnt) # m
      else (p, d) # increment_child m parent child cnt)"

definition PCSSCounter_visit ::
  "TagBitsetMap \<Rightarrow> nat \<Rightarrow> nat \<Rightarrow> pcss_call \<Rightarrow> PCSSDict \<Rightarrow> error + PCSSDict" where
  "PCSSCounter_visit tag_to_bitset cnt leaf_count call pcss_dict =
     then_do (PCSS_parent tag_to_bitset leaf_count call) (\<lambda>parent.
     then_do (PCSS_child tag_to_bitset call) (\<lambda>child.
       (case map_of pcss_dict parent of
          None \<Rightarrow> SafeInsert pcss_dict parent (increment [] child cnt)
        | Some child_counter \<Rightarrow> Inr (increment_child pcss_dict parent child cnt))))"

definition PCSSCounter_topology :: "Node \<times> nat \<Rightarrow> PCSSDict \<Rightarrow> error + PCSSDict" where
  "PCSSCounter_topology iter pcss_dict =
     (let topology = fst iter; cnt = snd iter in
      then_do (TagBitsetMapOf topology) (\<lambda>tag_to_bitset.
        if length (Children topology) \<noteq> 3 then Inl NotTrifurcating
        else PCSSPreOrder (PCSSCounter_visit tag_to_bitset cnt (LeafCount topology))
               topology pcss_dict))"

definition PCSSCounterOf :: "(Node \<times> nat) list \<Rightarrow> error + PCSSDict" where
  "PCSSCounterOf topologies = for_each PCSSCounter_topology topologies []"

section \<open>Rooted views of an unrooted topology\<close>

text \<open>
  Modelled from the spec: \<open>SBNMaps::IndexerRepresentationOf\<close> is called by
  \<open>SBNInstance::MakeIndexerRepresentations\<close> and by the test of \<open>libsbn.hpp\<close>, but its
  body (\<open>sbn_maps.cpp\<close>) is not among the sources. The spec gives, for a topology, one
  rooted view per edge of the unrooted tree: the rootsplit key of the rooting followed
  by the PCSS keys visible from that rooting, every key produced by the traversal of
  \<open>PCSSPreOrder\<close> from a virtual root position. A key is a bitset; a PCSS key is the
  parent subsplit followed by the child clade, as in \<open>ProcessLoadedTrees\<close>. An emission
  is visible from the rooting on the edge above node \<open>r\<close> when its virtual root position
  covers \<open>r\<close>. The views come in the order of the node ids: leaves by leaf id, then the
  other nodes in post-order (the test expects "the first one for rooting at the edge
  leading to leaf 0, the second for rooting at leaf 1, etc.").
\<close>

fun covers :: "virtual_root \<Rightarrow> Node \<Rightarrow> bool" where
  "covers (OnEdge v) r = (r = v)"
| "covers (RootIn v) r = (r \<in> set (PreOrder v))"
| "covers (UpTheTree p) r = (r \<notin> set (concat (map PreOrder (Children p))))"

definition edge_nodes :: "Node \<Rightarrow> Node list" where
  "edge_nodes topology =
     (let below = concat (map PostOrder (Children topology)) in
      sort_key MaxLeafID (filter IsLeaf below) @ filter (\<lambda>n. \<not> IsLeaf n) below)"

definition PCSS_key :: "TagBitsetMap \<Rightarrow> nat \<Rightarrow> pcss_call \<Rightarrow> error + Bitset" where
  "PCSS_key tag_to_bitset leaf_count call =
     then_do (PCSS_parent tag_to_bitset leaf_count call) (\<lambda>parent.
     then_do (PCSS_child tag_to_bitset call) (\<lambda>child. Inr (parent @ child)))"

definition rootsplit_key :: "TagBitsetMap \<Rightarrow> Node \<Rightarrow> error + Bitset" where
  "rootsplit_key tag_to_bitset r =
     then_do (map_at tag_to_bitset (Tag r)) (\<lambda>split. Inr (Minorize split))"

definition visible_from :: "Node \<Rightarrow> (pcss_call \<times> Bitset) list \<Rightarrow> Bitset list" where
  "visible_from r emissions =
     map snd (filter (\<lambda>emission. covers (position (fst emission)) r) emissions)"

definition RootedViews :: "Node \<Rightarrow> error + Bitset list list" where
  "RootedViews topology =
     then_do (TagBitsetMapOf topology) (\<lambda>tag_to_bitset.
     then_do (PCSS_calls topology) (\<lambda>calls.
     then_do (sequence_results (map (PCSS_key tag_to_bitset (LeafCount topology)) calls))
       (\<lambda>keys.
         sequence_results
           (map (\<lambda>r. then_do (rootsplit_key tag_to_bitset r)
                       (\<lambda>rootsplit. Inr (rootsplit # visible_from r (zip calls keys))))
              (edge_nodes topology)))))"

definition AtWithDefault :: "('k \<times> 'v) list \<Rightarrow> 'k \<Rightarrow> 'v \<Rightarrow> 'v" where
  "AtWithDefault m k default_value = (case map_of m k of None \<Rightarrow> default_value | Some v \<Rightarrow> v)"

definition IndexerRepresentationOf ::
  "(Bitset \<times> nat) list \<Rightarrow> Node \<Rightarrow> nat \<Rightarrow> error + nat list list" where
  "IndexerRepresentationOf indexer_map topology default_index =
     then_do (RootedViews topology)
       (\<lambda>views. Inr (map (map (\<lambda>key. AtWithDefault indexer_map key default_index)) views))"

section \<open>The SBN instance: \<open>libsbn.hpp\<close>, \<open>libsbn.cpp\<close>\<close>

text \<open>
  Scalars are \<open>double\<close> in the source and real numbers here. Nothing below depends on
  rounding: the parameter vector is filled with the constant one, copied, and handed to
  the normalisation and to the sampler.
\<close>

record Tree =
  Topology :: Node
  branch_lengths :: "real list"

record TreeCollection =
  trees :: "Tree list"
  taxon_labels :: "string list"

definition TaxonNames :: "TreeCollection \<Rightarrow> string list" where
  "TaxonNames collection = taxon_labels collection"

text \<open>
  The fields of \<open>SBNInstance\<close> that the SBN operations read or write. The PSP indexer,
  the alignment and the likelihood engine are left out: their classes are not among
  the sources and no operation below reads them.
\<close>

record SBNInstance =
  tree_collection :: TreeCollection
  sbn_parameters :: "real list"
  indexer :: "(Bitset \<times> nat) list"
  taxon_names :: "string list"
  rootsplits :: "Bitset list"
  index_to_child :: "(nat \<times> Bitset) list"
  parent_to_range :: "(Bitset \<times> nat \<times> nat) list"
  topology_counter :: "(Node \<times> nat) list"

definition ClearTreeCollectionAssociatedState :: "SBNInstance \<Rightarrow> SBNInstance" where
  "ClearTreeCollectionAssociatedState s =
     s\<lparr>sbn_parameters := [], rootsplits := [], indexer := [], index_to_child := [],
       parent_to_range := [], topology_counter := []\<rparr>"

text \<open>The first loop of \<open>ProcessLoadedTrees\<close>, over the entries of the rootsplit counter;
  the running index is threaded along with the instance.\<close>

definition add_rootsplit ::
  "Bitset \<times> nat \<Rightarrow> SBNInstance \<times> nat \<Rightarrow> error + SBNInstance \<times> nat" where
  "add_rootsplit iter st =
     (let s = fst st; index = snd st in
      then_do (SafeInsert (indexer s) (fst iter) index) (\<lambda>new_indexer.
        Inr (s\<lparr>indexer := new_indexer, rootsplits := rootsplits s @ [fst iter]\<rparr>, index + 1)))"

text \<open>The second loop: one block per parent, one slot per child of the parent.\<close>

definition add_child ::
  "Bitset \<Rightarrow> Bitset \<times> nat \<Rightarrow> SBNInstance \<times> nat \<Rightarrow> error + SBNInstance \<times> nat" where
  "add_child parent child_iter st =
     (let s = fst st; index = snd st; child = fst child_iter in
      then_do (SafeInsert (indexer s) (parent @ child) index) (\<lambda>new_indexer.
      then_do (SafeInsert (index_to_child s) index (ChildSubsplit parent child))
        (\<lambda>new_index_to_child.
          Inr (s\<lparr>indexer := new_indexer, index_to_child := new_index_to_child\<rparr>,
               index + 1))))"

definition add_parent ::
  "Bitset \<times> (Bitset \<times> nat) list \<Rightarrow> SBNInstance \<times> nat \<Rightarrow> error + SBNInstance \<times> nat" where
  "add_parent iter st =
     (let s = fst st; index = snd st; parent = fst iter; child_counter = snd iter in
      then_do (SafeInsert (parent_to_range s) parent (index, index + length child_counter))
        (\<lambda>new_parent_to_range.
          for_each (add_child parent) child_counter
            (s\<lparr>parent_to_range := new_parent_to_range\<rparr>, index)))"

text \<open>The indexer is built from the two counters in their iteration order.\<close>

definition BuildIndexer ::
  "(Bitset \<times> nat) list \<Rightarrow> PCSSDict \<Rightarrow> SBNInstance \<Rightarrow> error + SBNInstance" where
  "BuildIndexer rootsplit_counter pcss_counter s =
     then_do (for_each add_rootsplit rootsplit_counter (s, 0)) (\<lambda>st1.
     then_do (for_each add_parent pcss_counter st1) (\<lambda>st2.
       Inr ((fst st2)\<lparr>sbn_parameters := replicate (snd st2) 1\<rparr>)))"

definition ProcessLoadedTrees :: "SBNInstance \<Rightarrow> error + SBNInstance" where
  "ProcessLoadedTrees s =
     (let s0 = ClearTreeCollectionAssociatedState s;
          s1 = s0\<lparr>topology_counter := TopologyCounter (map Topology (trees (tree_collection s0)))\<rparr>
      in
      then_do (RootsplitCounterOf (topology_counter s1)) (\<lambda>rootsplit_counter.
      then_do (PCSSCounterOf (topology_counter s1)) (\<lambda>pcss_counter.
      then_do (BuildIndexer rootsplit_counter pcss_counter s1) (\<lambda>s2.
        Inr (s2\<lparr>taxon_names := TaxonNames (tree_collection s2)\<rparr>)))))"

definition CheckSBNMapsAvailable :: "SBNInstance \<Rightarrow> error + unit" where
  "CheckSBNMapsAvailable s =
     (if indexer s = [] \<or> index_to_child s = [] \<or> parent_to_range s = [] \<or>
         rootsplits s = [] \<or> taxon_names s = []
      then Inl SBNMapsUnavailable else Inr ())"

text \<open>
  Modelled from the spec: \<open>NumericalUtils::ProbabilityNormalizeInLog\<close> and
  \<open>NumericalUtils::Exponentiate\<close> (\<open>numerical_utils.hpp\<close>) are not among the sources. The
  spec has the sub-vector normalised from the log domain into the probability simplex:
  the logarithm of the sum of the exponentials is subtracted from every entry, and the
  entries are exponentiated. Both work in place on the vector they are given.
\<close>

definition ProbabilityNormalizeInLog :: "real list \<Rightarrow> real list" where
  "ProbabilityNormalizeInLog v = map (\<lambda>x. x - ln (sum_list (map exp v))) v"

definition Exponentiate :: "real list \<Rightarrow> real list" where
  "Exponentiate v = map exp v"

text \<open>Logarithm and exponential are not computed when an example is evaluated; the two
  functions stay as they are written.\<close>

declare ProbabilityNormalizeInLog_def [code del]
declare Exponentiate_def [code del]

text \<open>\<open>segment(start, n)\<close> of an Eigen vector, copied into a vector of its own.\<close>

definition segment :: "real list \<Rightarrow> nat \<Rightarrow> nat \<Rightarrow> real list" where
  "segment v start n = take n (drop start v)"

text \<open>
  \<open>SBNInstance::SampleIndex\<close>. The generator is the process-wide \<open>random_generator_\<close>; its
  state is \<open>g\<close>. \<open>draw\<close> stands for \<open>std::discrete_distribution\<close> built from the weights
  and applied to the generator: it returns an integer and the next generator state. The
  C++ standard has it return a value below the number of weights; the model leaves
  \<open>draw\<close> free, so that the assertion after the draw is a branch of its own.
  The method is \<open>const\<close>: the instance it returns is the one it was given.
\<close>

definition SampleIndex ::
  "(real list \<Rightarrow> 'g \<Rightarrow> nat \<times> 'g) \<Rightarrow> nat \<times> nat \<Rightarrow> SBNInstance \<Rightarrow> 'g
     \<Rightarrow> error + nat \<times> SBNInstance \<times> 'g" where
  "SampleIndex draw range_arg s g =
     (let range_start = fst range_arg; range_end = snd range_arg in
      if \<not> (range_start < range_end \<and> range_end \<le> length (sbn_parameters s))
      then Inl SampleIndexInvalidRange
      else
        let sbn_parameters_subrange =
              segment (sbn_parameters s) range_start (range_end - range_start);
            normalized = ProbabilityNormalizeInLog sbn_parameters_subrange;
            weights = Exponentiate normalized;
            drawn = draw weights g;
            result = range_start + fst drawn
        in if \<not> result < range_end then Inl SampleIndexOutOfRange
           else Inr (result, s, snd drawn))"

text \<open>
  The layout that the second loop of \<open>ProcessLoadedTrees\<close> is expected to produce from
  a PCSS counter and a first free index: the PCSS keys, parent by parent and child by
  child; their number; and for every parent the block of indices of its children.
\<close>

definition pcss_keys :: "PCSSDict \<Rightarrow> Bitset list" where
  "pcss_keys pcss_counter =
     concat (map (\<lambda>entry. map (\<lambda>child_iter. fst entry @ fst child_iter) (snd entry))
               pcss_counter)"

definition pcss_count :: "PCSSDict \<Rightarrow> nat" where
  "pcss_count pcss_counter = sum_list (map (\<lambda>entry. length (snd entry)) pcss_counter)"

fun blocks :: "PCSSDict \<Rightarrow> nat \<Rightarrow> (Bitset \<times> nat \<times> nat) list" where
  "blocks [] index = []"
| "blocks (entry # pcss_counter) index =
     (fst entry, index, index + length (snd entry))
       # blocks pcss_counter (index + length (snd entry))"

section \<open>Sampling and scoring\<close>

text \<open>
  \<open>Node::Reindex\<close>: leaves get their leaf id, the other nodes are numbered in post-order
  from one past the maximal leaf id; recording a tag twice fails.
\<close>

fun Reindex_node :: "Node \<Rightarrow> 64 word \<Rightarrow> Node \<times> 64 word"
  and Reindex_nodes :: "Node list \<Rightarrow> 64 word \<Rightarrow> Node list \<times> 64 word" where
  "Reindex_node (Node cs i t h) next_index =
     (if cs = [] then (Node cs (of_nat (fst t)) t h, next_index)
      else (let r = Reindex_nodes cs next_index in (Node (fst r) (snd r) t h, snd r + 1)))"
| "Reindex_nodes [] next_index = ([], next_index)"
| "Reindex_nodes (c # cs) next_index =
     (let r1 = Reindex_node c next_index; r2 = Reindex_nodes cs (snd r1)
      in (fst r1 # fst r2, snd r2))"

definition Reindex :: "Node \<Rightarrow> error + Node" where
  "Reindex t =
     (if distinct (map Tag (PostOrder t)) then Inr (fst (Reindex_node t (1 + of_nat (MaxLeafID t))))
      else Inl FailedMapInsertion)"

text \<open>
  Modelled from the spec: \<open>Node::Deroot\<close> and \<open>Node::Polish\<close> are declared in \<open>node.hpp\<close>,
  which is not among the sources, as is the default index of \<open>Node::Join\<close>. The spec has
  the two-clade root converted into a trifurcation by merging the structure of the two
  root children: the children of one root child, and the other root child, become the
  three children of the new root. \<open>Polish\<close> is taken to be the re-indexing above, the
  default index to be \<open>SIZE_MAX\<close>.
\<close>

definition SIZE_MAX :: "64 word" where
  "SIZE_MAX = - 1"

definition Deroot :: "Node \<Rightarrow> error + Node" where
  "Deroot t =
     (case Children t of
        [c0, c1] \<Rightarrow>
          if LeafCount c1 = 1 then Join (Children c0 @ [c1]) (Index c0)
          else Join (Children c1 @ [c0]) (Index c1)
      | _ \<Rightarrow> Inl NotBifurcating)"

definition Polish :: "Node \<Rightarrow> error + Node" where
  "Polish t = Reindex t"

text \<open>
  \<open>SBNInstance::SampleTopology(const Bitset &parent_subsplit)\<close> with its lambda
  \<open>process_subsplit\<close>. The recursion follows the maps of the instance and need not end on
  maps that are not those of a topology set; the first argument bounds its depth, as
  the call stack does. On maps that are fit for sampling a depth of the number of taxa
  is enough. The two arguments of \<open>Node::Join\<close> are evaluated left to right.
\<close>

fun SampleTopology_subsplit ::
  "nat \<Rightarrow> (real list \<Rightarrow> 'g \<Rightarrow> nat \<times> 'g) \<Rightarrow> Bitset \<Rightarrow> SBNInstance \<Rightarrow> 'g
     \<Rightarrow> error + Node \<times> SBNInstance \<times> 'g"
  and process_subsplit ::
  "nat \<Rightarrow> (real list \<Rightarrow> 'g \<Rightarrow> nat \<times> 'g) \<Rightarrow> Bitset \<Rightarrow> SBNInstance \<Rightarrow> 'g
     \<Rightarrow> error + Node \<times> SBNInstance \<times> 'g" where
  "SampleTopology_subsplit 0 draw parent_subsplit s g = Inl StackExhausted"
| "SampleTopology_subsplit (Suc depth) draw parent_subsplit s g =
     then_do (process_subsplit depth draw parent_subsplit s g) (\<lambda>r1.
     then_do (process_subsplit depth draw (RotateSubsplit parent_subsplit)
                (fst (snd r1)) (snd (snd r1))) (\<lambda>r2.
     then_do (Join [fst r1, fst r2] SIZE_MAX) (\<lambda>joined.
       Inr (joined, fst (snd r2), snd (snd r2)))))"
| "process_subsplit depth draw parent s g =
     (case SingletonOption (SplitChunk parent 1) of
        Some leaf_id \<Rightarrow> Inr (Leaf leaf_id, s, g)
      | None \<Rightarrow>
          then_do (map_at (parent_to_range s) parent) (\<lambda>range_arg.
          then_do (SampleIndex draw range_arg s g) (\<lambda>r.
          then_do (map_at (index_to_child (fst (snd r))) (fst r)) (\<lambda>child.
            SampleTopology_subsplit depth draw child (fst (snd r)) (snd (snd r))))))"

text \<open>\<open>SBNInstance::SampleTopology(bool rooted)\<close>.\<close>

definition SampleTopology ::
  "nat \<Rightarrow> (real list \<Rightarrow> 'g \<Rightarrow> nat \<times> 'g) \<Rightarrow> bool \<Rightarrow> SBNInstance \<Rightarrow> 'g
     \<Rightarrow> error + Node \<times> SBNInstance \<times> 'g" where
  "SampleTopology depth draw rooted s g =
     then_do (SampleIndex draw (0, length (rootsplits s)) s g) (\<lambda>r.
       let rootsplit_index = fst r; s1 = fst (snd r); g1 = snd (snd r) in
       if \<not> rootsplit_index < length (rootsplits s1) then Inl IndexOutOfRange
       else
         let rootsplit = rootsplits s1 ! rootsplit_index in
         then_do (SampleTopology_subsplit depth draw (rootsplit @ Bitset_flip rootsplit) s1 g1)
           (\<lambda>r2.
             then_do (if rooted then Inr (fst r2) else Deroot (fst r2)) (\<lambda>topology.
             then_do (Polish topology) (\<lambda>polished. Inr (polished, snd r2)))))"

text \<open>
  \<open>SBNInstance::SampleTrees\<close>. \<open>edge_count\<close> is an \<open>int\<close>; cast to \<open>size_t\<close>, a negative
  value is larger than any vector can be, and the allocation of the branch lengths
  fails. Leaf counts are taken to be below \<open>2^30\<close>, where the \<open>int\<close> arithmetic is exact.
\<close>

fun SampleTrees_loop ::
  "nat \<Rightarrow> (real list \<Rightarrow> 'g \<Rightarrow> nat \<times> 'g) \<Rightarrow> int \<Rightarrow> nat \<Rightarrow> SBNInstance \<Rightarrow> 'g
     \<Rightarrow> error + SBNInstance \<times> 'g" where
  "SampleTrees_loop depth draw edge_count 0 s g = Inr (s, g)"
| "SampleTrees_loop depth draw edge_count (Suc remaining) s g =
     (if edge_count < 0 then Inl VectorLengthError
      else
        let branch_lengths_vec = replicate (nat edge_count) (0 :: real) in
        then_do (SampleTopology depth draw False s g) (\<lambda>r.
          let s1 = fst (snd r);
              tree = \<lparr>Topology = fst r, branch_lengths = branch_lengths_vec\<rparr>;
              collection = tree_collection s1;
              s2 = s1\<lparr>tree_collection := collection\<lparr>trees := trees collection @ [tree]\<rparr>\<rparr>
          in SampleTrees_loop depth draw edge_count remaining s2 (snd (snd r))))"

definition SampleTrees ::
  "nat \<Rightarrow> (real list \<Rightarrow> 'g \<Rightarrow> nat \<times> 'g) \<Rightarrow> nat \<Rightarrow> SBNInstance \<Rightarrow> 'g
     \<Rightarrow> error + SBNInstance \<times> 'g" where
  "SampleTrees depth draw cnt s g =
     then_do (CheckSBNMapsAvailable s) (\<lambda>u.
       let leaf_count = length (rootsplits s ! 0);
           edge_count = 2 * int leaf_count - 2;
           collection = tree_collection s;
           s1 = s\<lparr>tree_collection := collection\<lparr>trees := []\<rparr>\<rparr>
       in SampleTrees_loop depth draw edge_count cnt s1 g)"

text \<open>\<open>SBNInstance::MakeIndexerRepresentations\<close>: the sentinel handed to
  \<open>IndexerRepresentationOf\<close> is the length of the parameter vector.\<close>

definition MakeIndexerRepresentations :: "SBNInstance \<Rightarrow> error + nat list list list" where
  "MakeIndexerRepresentations s =
     sequence_results
       (map (\<lambda>tree. IndexerRepresentationOf (indexer s) (Topology tree)
                      (length (sbn_parameters s)))
          (trees (tree_collection s)))"

text \<open>
  Modelled from the spec: \<open>SBNProbability::ProbabilityNormalizeParamsInLog\<close> and
  \<open>SBNProbability::ProbabilityOf\<close> (\<open>sbn_probability.hpp\<close>) are not among the sources. The
  spec normalises the rootsplit block and every parent block on their own, takes for
  each rooting the product of the probabilities at its indices, a missing key (the
  sentinel) giving zero, and sums over the rootings of a topology.
\<close>

definition normalize_block :: "real list \<Rightarrow> nat \<times> nat \<Rightarrow> real list" where
  "normalize_block v block =
     take (fst block) v
       @ ProbabilityNormalizeInLog (segment v (fst block) (snd block - fst block))
       @ drop (snd block) v"

definition ProbabilityNormalizeParamsInLog ::
  "real list \<Rightarrow> nat \<Rightarrow> (Bitset \<times> nat \<times> nat) list \<Rightarrow> real list" where
  "ProbabilityNormalizeParamsInLog v rootsplit_count ranges =
     fold (\<lambda>entry w. normalize_block w (snd entry)) ranges
       (normalize_block v (0, rootsplit_count))"

definition ProbabilityOf :: "real list \<Rightarrow> nat list list list \<Rightarrow> real list" where
  "ProbabilityOf v representations =
     map (\<lambda>representation.
            sum_list (map (\<lambda>rooting.
              prod_list (map (\<lambda>idx. if idx < length v then exp (v ! idx) else 0) rooting))
              representation))
       representations"

text \<open>\<open>SBNInstance::CalculateSBNProbabilities\<close>: the parameters are copied, and the copy
  is what the in-place normalisation works on.\<close>

definition CalculateSBNProbabilities :: "SBNInstance \<Rightarrow> error + real list \<times> SBNInstance" where
  "CalculateSBNProbabilities s =
     (let sbn_parameters_copy = sbn_parameters s;
          normalized_copy =
            ProbabilityNormalizeParamsInLog sbn_parameters_copy (length (rootsplits s))
              (parent_to_range s)
      in then_do (MakeIndexerRepresentations s) (\<lambda>representations.
           Inr (ProbabilityOf normalized_copy representations, s)))"

section \<open>The end of \<open>FatBeagle::RatioGradient\<close>\<close>

text \<open>
  The lines of \<open>RatioGradient\<close> after the four gradient vectors have been computed.
  \<open>density\<close> and \<open>jacobian\<close> are the results of the two calls of
  \<open>UpdateGradientUnWeightedLogDensity\<close>; \<open>height_density\<close> and \<open>height_jacobian\<close> are the
  values of \<open>UpdateHeightParameterGradientUnweightedLogDensity\<close> on the height gradient
  and on the log-time array, which is a function of the tree and of its argument only,
  so that the second pair of calls returns what the first pair returned; \<open>k\<close> is
  \<open>root_id - leaf_count\<close>. Scalars are real numbers; on the values used below
  (zero, one half, two) every operation is exact in binary floating point as well.
  A height of zero, where the source divides by zero and gets an infinity, is outside
  of what real numbers express; no height is zero below.
\<close>

definition RatioGradient_finish ::
  "real list \<Rightarrow> real \<Rightarrow> real list \<Rightarrow> real \<Rightarrow> real list \<Rightarrow> nat \<Rightarrow> error + real list" where
  "RatioGradient_finish density height_density jacobian height_jacobian parameters k =
     (let gradientLogDensity = density[k := height_density];
          gradientLogJacobianDeterminant = jacobian[k := height_jacobian];
          subtracted =
            map (\<lambda>i. gradientLogDensity ! i
                       - (gradientLogJacobianDeterminant ! i - 1 / parameters ! i))
              [0 ..< length gradientLogDensity];
          temp = subtracted ! k - gradientLogJacobianDeterminant ! k;
          recomputed = subtracted[k := height_density - height_jacobian]
      in if temp = recomputed ! k then Inr recomputed else Inl RatioGradientAssertion)"

text \<open>Two instances agree on everything but the tree collection.\<close>

definition same_maps :: "SBNInstance \<Rightarrow> SBNInstance \<Rightarrow> bool" where
  "same_maps s s' \<longleftrightarrow>
     indexer s' = indexer s \<and> sbn_parameters s' = sbn_parameters s \<and>
     parent_to_range s' = parent_to_range s \<and> topology_counter s' = topology_counter s \<and>
     rootsplits s' = rootsplits s \<and> index_to_child s' = index_to_child s \<and>
     taxon_names s' = taxon_names s"

section \<open>Examples\<close>

definition succeeded :: "error + 'a \<Rightarrow> bool" where
  "succeeded r = (case r of Inl e \<Rightarrow> False | Inr x \<Rightarrow> True)"

text \<open>A sampler that always returns the first index, on a generator without state.\<close>

definition always_first :: "real list \<Rightarrow> unit \<Rightarrow> nat \<times> unit" where
  "always_first weights g = (0, g)"

text \<open>An instance on which nothing has been loaded or built.\<close>

definition empty_instance :: SBNInstance where
  "empty_instance =
     \<lparr>tree_collection = \<lparr>trees = [], taxon_labels = []\<rparr>,
      sbn_parameters = [], indexer = [], taxon_names = [], rootsplits = [],
      index_to_child = [], parent_to_range = [], topology_counter = []\<rparr>"

text \<open>The unrooted tree on three taxa, \<open>(0,1,2)\<close>, as \<open>Node::Join\<close> builds it from three
  leaves; a collection holding this one tree; an instance on which the collection has
  been loaded; and the instance that \<open>ProcessLoadedTrees\<close> makes of it.\<close>

definition star_topology :: Node where
  "star_topology =
     Node [Node [] 0 (0, 1) 0, Node [] 1 (1, 1) 824515495, Node [] 2 (2, 1) 1722258072]
       3 (2, 3) 2936345214"

definition star_collection :: TreeCollection where
  "star_collection =
     \<lparr>trees = [\<lparr>Topology = star_topology, branch_lengths = [1, 1, 1, 0]\<rparr>],
      taxon_labels = [''t0'', ''t1'', ''t2'']\<rparr>"

definition star_loaded :: SBNInstance where
  "star_loaded =
     \<lparr>tree_collection = star_collection,
      sbn_parameters = [], indexer = [], taxon_names = [], rootsplits = [],
      index_to_child = [], parent_to_range = [], topology_counter = []\<rparr>"

definition star_instance :: SBNInstance where
  "star_instance =
     \<lparr>tree_collection = star_collection,
      sbn_parameters = [1, 1, 1, 1, 1, 1],
      indexer =
        [([False, True, True], 0), ([False, True, False], 1), ([False, False, True], 2),
         ([False, False, True, True, True, False, False, True, False], 3),
         ([True, False, False, False, True, True, False, False, True], 4),
         ([False, True, False, True, False, True, False, False, True], 5)],
      taxon_names = [''t0'', ''t1'', ''t2''],
      rootsplits = [[False, True, True], [False, True, False], [False, False, True]],
      index_to_child =
        [(3, [False, True, False, True, False, False]),
         (4, [False, False, True, False, True, False]),
         (5, [False, False, True, True, False, False])],
      parent_to_range =
        [([False, False, True, True, True, False], 3, 4),
         ([True, False, False, False, True, True], 4, 5),
         ([False, True, False, True, False, True], 5, 6)],
      topology_counter = [(star_topology, 1)]\<rparr>"

text \<open>The first and the third of \<open>Node::ExampleTopologies\<close>, \<open>(0,1,(2,3))\<close> and
  \<open>(0,2,(1,3))\<close>, re-indexed; an instance on which the first has been loaded; the
  instance that \<open>ProcessLoadedTrees\<close> makes of it; and that instance with the second
  topology put into its tree collection afterwards.\<close>

definition four_taxon_topology :: Node where
  "four_taxon_topology =
     Node [Node [] 0 (0, 1) 0, Node [] 1 (1, 1) 824515495,
           Node [Node [] 2 (2, 1) 1722258072, Node [] 3 (3, 1) 3753300549] 4 (3, 2)
             6209831354]
       5 (3, 4) 10839077946"

definition other_topology :: Node where
  "other_topology =
     Node [Node [] 0 (0, 1) 0, Node [] 2 (2, 1) 1722258072,
           Node [Node [] 1 (1, 1) 824515495, Node [] 3 (3, 1) 3753300549] 4 (3, 2)
             8005325764]
       5 (3, 4) 14881391288"

definition four_taxon_collection :: "Node \<Rightarrow> TreeCollection" where
  "four_taxon_collection topology =
     \<lparr>trees = [\<lparr>Topology = topology, branch_lengths = [1, 1, 1, 1, 1, 1]\<rparr>],
      taxon_labels = [''t0'', ''t1'', ''t2'', ''t3'']\<rparr>"

definition four_taxon_loaded :: SBNInstance where
  "four_taxon_loaded =
     \<lparr>tree_collection = four_taxon_collection four_taxon_topology,
      sbn_parameters = [], indexer = [], taxon_names = [], rootsplits = [],
      index_to_child = [], parent_to_range = [], topology_counter = []\<rparr>"

definition four_taxon_instance :: SBNInstance where
  "four_taxon_instance =
     \<lparr>tree_collection = four_taxon_collection four_taxon_topology,
      sbn_parameters = [1, 1, 1, 1, 1, 1, 1, 1, 1, 1, 1, 1, 1, 1, 1],
      indexer =
        [([False, True, True, True], 0), ([False, True, False, False], 1),
         ([False, False, True, True], 2), ([False, False, True, False], 3),
         ([False, False, False, True], 4),
         ([False, False, True, True, True, True, False, False, False, True, False, False], 5),
         ([True, False, False, False, False, False, True, True, False, False, False, True], 6),
         ([False, True, False, False, False, False, True, True, False, False, False, True], 7),
         ([True, True, False, False, False, False, True, True, False, False, False, True], 8),
         ([False, False, False, True, True, True, False, False, False, True, False, False], 9),
         ([False, False, True, False, True, True, False, False, False, True, False, False], 10),
         ([True, False, False, False, False, True, True, True, False, False, True, True], 11),
         ([False, True, False, False, True, False, True, True, False, False, True, True], 12),
         ([False, False, True, False, True, True, False, True, False, False, False, True], 13),
         ([False, False, False, True, True, True, True, False, False, False, True, False], 14)],
      taxon_names = [''t0'', ''t1'', ''t2'', ''t3''],
      rootsplits =
        [[False, True, True, True], [False, True, False, False], [False, False, True, True],
         [False, False, True, False], [False, False, False, True]],
      index_to_child =
        [(5, [False, True, False, False, True, False, False, False]),
         (6, [False, False, False, True, False, False, True, False]),
         (7, [False, False, False, True, False, False, True, False]),
         (8, [False, False, False, True, False, False, True, False]),
         (9, [False, True, False, False, True, False, False, False]),
         (10, [False, True, False, False, True, False, False, False]),
         (11, [False, False, True, True, False, True, False, False]),
         (12, [False, False, True, True, True, False, False, False]),
         (13, [False, False, False, True, True, True, False, False]),
         (14, [False, False, True, False, True, True, False, False])],
      parent_to_range =
        [([False, False, True, True, True, True, False, False], 5, 6),
         ([True, False, False, False, False, False, True, True], 6, 7),
         ([False, True, False, False, False, False, True, True], 7, 8),
         ([True, True, False, False, False, False, True, True], 8, 9),
         ([False, False, False, True, True, True, False, False], 9, 10),
         ([False, False, True, False, True, True, False, False], 10, 11),
         ([True, False, False, False, False, True, True, True], 11, 12),
         ([False, True, False, False, True, False, True, True], 12, 13),
         ([False, False, True, False, True, True, False, True], 13, 14),
         ([False, False, False, True, True, True, True, False], 14, 15)],
      topology_counter = [(four_taxon_topology, 1)]\<rparr>"

definition query_instance :: SBNInstance where
  "query_instance = four_taxon_instance\<lparr>tree_collection := four_taxon_collection other_topology\<rparr>"

section \<open>Unrooted topologies, their rootsplits and their PCSSs\<close>

text \<open>
  The topologies that the counters are meant for: the root has three children, every
  other node is a leaf or has two children, the leaves carry pairwise distinct ids
  below the leaf count of the root, and no two nodes carry the same tag (the tag of a
  node built by \<open>Node::Leaf\<close> and \<open>Node::Join\<close> is the pair of the maximal leaf id and the
  leaf count of its subtree). The id of a leaf is the first half of its tag.
\<close>

fun leaf_ids :: "Node \<Rightarrow> nat list" where
  "leaf_ids (Node cs i t h) = (if cs = [] then [fst t] else concat (map leaf_ids cs))"

fun bifurcating :: "Node \<Rightarrow> bool" where
  "bifurcating (Node cs i t h) = (cs = [] \<or> (length cs = 2 \<and> (\<forall>c \<in> set cs. bifurcating c)))"

definition unrooted_topology :: "Node \<Rightarrow> bool" where
  "unrooted_topology t =
     (length (Children t) = 3 \<and> (\<forall>c \<in> set (Children t). bifurcating c) \<and>
      distinct (leaf_ids t) \<and> (\<forall>i \<in> set (leaf_ids t). i < LeafCount t) \<and>
      distinct (map Tag (PreOrder t)))"

text \<open>
  The clade of a node as a bitset over \<open>n\<close> taxa, read off the leaves below the node; the
  edges of an unrooted topology, each named by the node below it; the rootsplit of an
  edge; and the parent subsplit and child clade that the eight arguments of a call of
  a \<open>PCSSFun\<close> describe.
\<close>

definition bits :: "nat \<Rightarrow> nat set \<Rightarrow> Bitset" where
  "bits n S = map (\<lambda>i. i \<in> S) [0 ..< n]"

definition clade :: "nat \<Rightarrow> Node \<Rightarrow> Bitset" where
  "clade n v = bits n (set (leaf_ids v))"

definition edges :: "Node \<Rightarrow> Node list" where
  "edges t = concat (map PreOrder (Children t))"

definition rootsplit_of_edge :: "nat \<Rightarrow> Node \<Rightarrow> Bitset" where
  "rootsplit_of_edge n v = Minorize (clade n v)"


definition oriented :: "nat \<Rightarrow> Node \<Rightarrow> bool \<Rightarrow> Bitset" where
  "oriented n v direction = (if direction then Bitset_flip (clade n v) else clade n v)"

definition pcss_of_call :: "nat \<Rightarrow> pcss_call \<Rightarrow> Bitset \<times> Bitset" where
  "pcss_of_call n call =
     (oriented n (sister_node call) (sister_direction call)
        @ oriented n (focal_node call) (focal_direction call),
      Bitset_min (oriented n (child0_node call) (child0_direction call))
                 (oriented n (child1_node call) (child1_direction call)))"




text \<open>
  The calls of \<open>PCSSPreOrder\<close> written out as a list: the calls that the root lambda makes
  for one rotation of the three children of the root, the calls that the internal
  lambda makes for a node with its parent and its sister, and the order in which
  \<open>TriplePreOrder\<close> and \<open>TriplePreOrderInternal\<close> go through them.
\<close>

definition root_group :: "Node \<Rightarrow> Node \<Rightarrow> Node \<Rightarrow> pcss_call list" where
  "root_group node0 node1 node2 =
     PCSSCall node2 False node2 True node0 False node1 False (OnEdge node2) #
     (case Children node2 of
        [child0, child1] \<Rightarrow>
          [PCSSCall node0 False node2 False child0 False child1 False (RootIn node1),
           PCSSCall node1 False node2 False child0 False child1 False (RootIn node0),
           PCSSCall node2 True node2 False child0 False child1 False (OnEdge node2),
           PCSSCall child1 False node2 True node0 False node1 False (RootIn child0),
           PCSSCall child0 False node2 True node0 False node1 False (RootIn child1)]
      | _ \<Rightarrow> [])"

definition internal_group :: "Node \<Rightarrow> Node \<Rightarrow> Node \<Rightarrow> pcss_call list" where
  "internal_group parent sister node =
     PCSSCall node False node True parent True sister False (OnEdge node) #
     (case Children node of
        [child0, child1] \<Rightarrow>
          [PCSSCall sister False node False child0 False child1 False (UpTheTree parent),
           PCSSCall parent True node False child0 False child1 False (RootIn sister),
           PCSSCall node True node False child0 False child1 False (OnEdge node),
           PCSSCall child1 False node True sister False parent True (RootIn child0),
           PCSSCall child0 False node True sister False parent True (RootIn child1)]
      | _ \<Rightarrow> [])"

fun internal_calls :: "Node \<Rightarrow> pcss_call list" where
  "internal_calls (Node cs i t h) =
     (case cs of
        [c0, c1] \<Rightarrow>
          internal_group (Node cs i t h) c1 c0 @ internal_calls c0 @
          internal_group (Node cs i t h) c0 c1 @ internal_calls c1
      | _ \<Rightarrow> [])"

definition topology_calls :: "Node \<Rightarrow> pcss_call list" where
  "topology_calls t =
     (case Children t of
        [c0, c1, c2] \<Rightarrow>
          root_group c0 c1 c2 @ root_group c1 c2 c0 @ root_group c2 c0 c1 @
          internal_calls c0 @ internal_calls c1 @ internal_calls c2
      | _ \<Rightarrow> [])"

section \<open>Maps that can be sampled from\<close>

text \<open>
  What \<open>SampleTopology\<close> relies on in the maps of an instance over \<open>n\<close> taxa. The taxa of a
  clade are the positions of its set bits. A subsplit is well formed when it has
  length \<open>2 * n\<close>, its two chunks are non-empty and disjoint, and each of its two
  orientations either ends in a single taxon or is a parent that the parent-to-range
  map knows. The maps are fit for sampling when there is a rootsplit, every rootsplit
  has a slot in the parameter vector and gives a well-formed subsplit together with its
  complement, no parent and no index is recorded twice, and every parent has a
  non-empty range inside the parameter vector each index of which leads to a
  well-formed child subsplit that splits the second chunk of the parent.
\<close>

definition ones :: "Bitset \<Rightarrow> nat list" where
  "ones x = filter (\<lambda>i. x ! i) [0 ..< length x]"

definition closed_subsplit :: "SBNInstance \<Rightarrow> Bitset \<Rightarrow> bool" where
  "closed_subsplit s parent \<longleftrightarrow>
     SingletonOption (SplitChunk parent 1) \<noteq> None \<or>
     parent \<in> set (map fst (parent_to_range s))"

definition good_subsplit :: "SBNInstance \<Rightarrow> nat \<Rightarrow> Bitset \<Rightarrow> bool" where
  "good_subsplit s n subsplit \<longleftrightarrow>
     length subsplit = 2 * n \<and>
     ones (SplitChunk subsplit 0) \<noteq> [] \<and> ones (SplitChunk subsplit 1) \<noteq> [] \<and>
     set (ones (SplitChunk subsplit 0)) \<inter> set (ones (SplitChunk subsplit 1)) = {} \<and>
     closed_subsplit s subsplit \<and> closed_subsplit s (RotateSubsplit subsplit)"

definition sampling_maps :: "nat \<Rightarrow> SBNInstance \<Rightarrow> bool" where
  "sampling_maps n s \<longleftrightarrow>
     rootsplits s \<noteq> [] \<and> length (rootsplits s) \<le> length (sbn_parameters s) \<and>
     distinct (map fst (parent_to_range s)) \<and> distinct (map fst (index_to_child s)) \<and>
     (\<forall>r \<in> set (rootsplits s). length r = n \<and> good_subsplit s n (r @ Bitset_flip r)) \<and>
     (\<forall>entry \<in> set (parent_to_range s).
        fst (snd entry) < snd (snd entry) \<and>
        snd (snd entry) \<le> length (sbn_parameters s) \<and>
        (\<forall>idx \<in> set [fst (snd entry) ..< snd (snd entry)].
           case map_of (index_to_child s) idx of
             None \<Rightarrow> False
           | Some child \<Rightarrow>
               good_subsplit s n child \<and>
               set (ones (SplitChunk child 0)) \<union> set (ones (SplitChunk child 1))
                 = set (ones (SplitChunk (fst entry) 1))))"

text \<open>The tag of every node is the pair of the maximal leaf id and the number of leaves
  below it, as \<open>Node::Leaf\<close> and \<open>Node::Join\<close> compute it.\<close>

fun tags_ok :: "Node \<Rightarrow> bool" where
  "tags_ok (Node cs i t h) \<longleftrightarrow>
     (\<forall>c \<in> set cs. tags_ok c) \<and>
     t = (Max (set (leaf_ids (Node cs i t h))), length (leaf_ids (Node cs i t h)))"

text \<open>A tree over the taxa \<open>L\<close> whose inner nodes have two children each.\<close>

definition clade_tree :: "Node \<Rightarrow> nat set \<Rightarrow> bool" where
  "clade_tree v L \<longleftrightarrow>
     bifurcating v \<and> tags_ok v \<and> distinct (leaf_ids v) \<and> set (leaf_ids v) = L"

text \<open>A topology with the indices of its nodes blanked: what re-indexing leaves as it is.\<close>

fun unindexed :: "Node \<Rightarrow> Node" where
  "unindexed (Node cs i t h) = Node (map unindexed cs) 0 t h"

section \<open>What a rooted view holds\<close>

text \<open>
  The key of a PCSS is the parent subsplit followed by the child clade, as in the
  indexer; the calls of \<open>PCSSPreOrder\<close> that are seen from the rooting on the edge above
  the node \<open>r\<close> are those whose virtual root position covers \<open>r\<close>.
\<close>

definition pcss_key_of_call :: "nat \<Rightarrow> pcss_call \<Rightarrow> Bitset" where
  "pcss_key_of_call n call = fst (pcss_of_call n call) @ snd (pcss_of_call n call)"

definition calls_seen_from :: "Node \<Rightarrow> Node \<Rightarrow> pcss_call list" where
  "calls_seen_from t r = filter (\<lambda>call. covers (position call) r) (topology_calls t)"

section \<open>Child order does not matter\<close>

lemma filter_key_distinct:
  "distinct (map f xs) \<Longrightarrow> k \<in> set xs \<Longrightarrow> filter (\<lambda>x. f k = f x) xs = [k]"
proof (induction xs)
  case Nil
  then show ?case by simp
next
  case (Cons a xs)
  show ?case
  proof (cases "a = k")
    case True
    have "\<forall>x \<in> set xs. f k \<noteq> f x" using Cons.prems True by auto
    then have "filter (\<lambda>x. f k = f x) xs = []" by (simp add: filter_empty_conv)
    then show ?thesis using True by simp
  next
    case False
    then have kin: "k \<in> set xs" using Cons.prems by simp
    have "f a \<noteq> f k" using Cons.prems kin by auto
    then show ?thesis using Cons.IH Cons.prems kin by auto
  qed
qed

lemma sort_key_mset_distinct:
  assumes "mset ns = mset ms" and "distinct (map f ns)"
  shows "sort_key f ns = sort_key f ms"
proof -
  have dm: "distinct (map f ms)"
    using assms by (metis mset_eq_imp_distinct_iff mset_map)
  have seteq: "set ns = set ms" using assms(1) by (rule mset_eq_setD)
  show ?thesis
  proof (rule properties_for_sort_key)
    show "mset (sort_key f ms) = mset ns" using assms(1) by simp
    show "sorted (map f (sort_key f ms))" by simp
    fix k assume "k \<in> set (sort_key f ms)"
    then have kms: "k \<in> set ms" by simp
    then have kns: "k \<in> set ns" using seteq by simp
    have d2: "distinct (map f (sort_key f ms))" using dm by (simp add: distinct_map)
    have "filter (\<lambda>x. f k = f x) (sort_key f ms) = [k]"
      using filter_key_distinct[OF d2] kms by simp
    moreover have "filter (\<lambda>x. f k = f x) ns = [k]"
      using filter_key_distinct[OF assms(2) kns] .
    ultimately show "filter (\<lambda>x. f k = f x) (sort_key f ms) = filter (\<lambda>x. f k = f x) ns"
      by simp
  qed
qed

lemma Join_mset:
  assumes "mset ns = mset ms"
  shows "Join ns k = Join ms k"
proof -
  have e: "(ns = []) = (ms = [])" using assms by (metis mset_zero_iff)
  have d: "distinct (map MaxLeafID ns) = distinct (map MaxLeafID ms)"
    using assms by (metis mset_eq_imp_distinct_iff mset_map)
  show ?thesis
  proof (cases "ns \<noteq> [] \<and> distinct (map MaxLeafID ns)")
    case True
    then have "sort_key MaxLeafID ns = sort_key MaxLeafID ms"
      using sort_key_mset_distinct[OF assms, where f = MaxLeafID] by simp
    then show ?thesis using e d by (simp add: Join_def)
  next
    case False
    then show ?thesis using e d by (auto simp: Join_def)
  qed
qed

lemma sequence_results_map_Inr: "sequence_results (map Inr xs) = Inr xs"
  by (induction xs) auto

lemma sequence_results_Inr: "sequence_results rs = Inr xs \<longleftrightarrow> rs = map Inr xs"
proof
  show "sequence_results rs = Inr xs \<Longrightarrow> rs = map Inr xs"
    by (induction rs arbitrary: xs) (auto split: sum.splits)
  show "rs = map Inr xs \<Longrightarrow> sequence_results rs = Inr xs"
    by (simp add: sequence_results_map_Inr)
qed

lemma map_eq_perm:
  fixes g :: "'a \<Rightarrow> 'e + 'b"
  assumes "mset ss = mset ts" and "map g ss = map Inr ns"
  shows "\<exists>ms. map g ts = map Inr ms \<and> mset ms = mset ns"
proof -
  let ?I = "Inr :: 'b \<Rightarrow> 'e + 'b"
  let ?ms = "map projr (map g ts)"
  have m: "mset (map g ts) = mset (map ?I ns)"
    using assms by (metis mset_map)
  then have "set (map g ts) = set (map ?I ns)" by (rule mset_eq_setD)
  then have "\<forall>y \<in> set (map g ts). \<exists>n. y = ?I n" by auto
  then have e: "map g ts = map ?I ?ms"
    by (induction ts) auto
  have "mset (map ?I ?ms) = mset (map g ts)"
    by (rule arg_cong[where f = mset], rule e[symmetric])
  from trans[OF this m] have "image_mset ?I (mset ?ms) = image_mset ?I (mset ns)"
    by (simp add: multiset.map_comp)
  then have "mset ?ms = mset ns"
    using injD[OF multiset.inj_map[OF inj_Inr]] by blast
  then show ?thesis using e by blast
qed

lemma construct_child_order:
  "same_up_to_child_order r s \<Longrightarrow> (construct r = Inr n \<longleftrightarrow> construct s = Inr n)"
proof (induction arbitrary: n rule: same_up_to_child_order.induct)
  case (leaf i)
  show ?case by simp
next
  case (join rs ss ts k)
  have pw: "list_all2 (\<lambda>r s. \<forall>n. construct r = Inr n \<longleftrightarrow> construct s = Inr n) rs ss"
    using join.IH by (rule list_all2_mono) blast
  have a: "map construct rs = map Inr ns \<longleftrightarrow> map construct ss = map Inr ns" for ns
    using pw
  proof (induction rs ss arbitrary: ns rule: list_all2_induct)
    case Nil
    show ?case by simp
  next
    case (Cons r rs s ss)
    show ?case
    proof (cases ns)
      case Nil
      then show ?thesis by simp
    next
      case (Cons m ms)
      then show ?thesis using Cons.IH[of ms] Cons.hyps by simp
    qed
  qed
  have c: "construct (RJoin xs k) = Inr n \<longleftrightarrow>
        (\<exists>ns. map construct xs = map Inr ns \<and> Join ns k = Inr n)" for xs
  proof (cases "sequence_results (map construct xs)")
    case (Inl e)
    then have "\<not> (\<exists>ns. map construct xs = map Inr ns)"
      using sequence_results_map_Inr by (metis sum.distinct(1))
    then show ?thesis using Inl by simp
  next
    case (Inr ms)
    then have "map construct xs = map Inr ms" by (simp add: sequence_results_Inr)
    then have "\<And>ns. map construct xs = map Inr ns \<longleftrightarrow> ns = ms"
      by (metis inj_Inr inj_map_eq_map)
    then show ?thesis using Inr by simp
  qed
  have d: "(\<exists>ns. map construct ss = map Inr ns \<and> Join ns k = Inr n) \<longleftrightarrow>
        (\<exists>ms. map construct ts = map Inr ms \<and> Join ms k = Inr n)"
  proof
    assume "\<exists>ns. map construct ss = map Inr ns \<and> Join ns k = Inr n"
    then obtain ns where ns: "map construct ss = map Inr ns" "Join ns k = Inr n" by blast
    from map_eq_perm[OF join.hyps ns(1)] obtain ms
      where ms: "map construct ts = map Inr ms" "mset ms = mset ns" by blast
    then show "\<exists>ms. map construct ts = map Inr ms \<and> Join ms k = Inr n"
      using ns(2) Join_mset[OF ms(2), of k] by auto
  next
    assume "\<exists>ms. map construct ts = map Inr ms \<and> Join ms k = Inr n"
    then obtain ms where ms: "map construct ts = map Inr ms" "Join ms k = Inr n" by blast
    from map_eq_perm[OF join.hyps[symmetric] ms(1)] obtain ns
      where ns: "map construct ss = map Inr ns" "mset ns = mset ms" by blast
    then show "\<exists>ns. map construct ss = map Inr ns \<and> Join ns k = Inr n"
      using ms(2) Join_mset[OF ns(2), of k] by auto
  qed
  show ?case using a c d by simp
qed

lemma Nodes_eq_pointwise:
  "(\<And>c. c \<in> set cs \<Longrightarrow> Node_eq c c) \<Longrightarrow> Nodes_eq cs cs"
  by (induction cs) auto

lemma Node_eq_refl: "Node_eq n n"
  by (induction n) (simp add: Nodes_eq_pointwise)

lemma fold_increment_replicate:
  "fold increment_topology (replicate i a) [(a, c)] = [(a, c + i)]"
  by (induction i arbitrary: c) (simp_all add: Node_eq_refl)

lemma TopologyCounter_replicate:
  "0 < i \<Longrightarrow> TopologyCounter (replicate i a) = [(a, i)]"
proof -
  assume "0 < i"
  then obtain j where j: "i = Suc j" by (cases i) auto
  show ?thesis unfolding TopologyCounter_def j
    using fold_increment_replicate[of j a 1] by simp
qed

lemma example_topologies_same:
  "same_up_to_child_order example_topology_0 example_topology_1"
  unfolding example_topology_0_def example_topology_1_def
  apply (rule same_up_to_child_order.join
      [where ss = "[RLeaf 0, RLeaf 1, RJoin [RLeaf 3, RLeaf 2] 0]"])
   apply (simp add: same_up_to_child_order.leaf)
   apply (rule same_up_to_child_order.join [where ss = "[RLeaf 2, RLeaf 3]"])
    apply (simp add: same_up_to_child_order.leaf)
   apply simp
  apply simp
  done

lemma example_topology_0_constructed: "\<exists>a. construct example_topology_0 = Inr a"
  unfolding example_topology_0_def
  by (simp add: Join_def Leaf_def MaxLeafID_def)

text \<open>
  Claim C7. When two construction recipes describe the same topology and differ only in
  the order in which children are handed to \<open>Node::Join\<close>, and the first one
  constructs a node \<open>a\<close>, then the second one constructs a node \<open>b\<close> with the same tag,
  the same hash and the same (sorted) children, \<open>operator==\<close> holds between \<open>a\<close> and
  \<open>b\<close> in both directions, and a collection made of \<open>i\<close> copies of the first tree and
  \<open>j\<close> copies of the second is counted by the topology counter as one single entry of
  multiplicity \<open>i + j\<close>.
\<close>

theorem child_order_canonical:
  assumes "same_up_to_child_order r s" and "construct r = Inr a"
  shows "\<exists>b. construct s = Inr b \<and> Tag b = Tag a \<and> Hash b = Hash a \<and>
            Children b = Children a \<and> Node_eq a b \<and> Node_eq b a \<and>
            (\<forall>i j. 0 < i \<longrightarrow>
               TopologyCounter (replicate i a @ replicate j b) = [(a, i + j)])"
proof -
  have b: "construct s = Inr a"
    using construct_child_order[OF assms(1), of a] assms(2) by simp
  have "TopologyCounter (replicate i a @ replicate j a) = [(a, i + j)]" if "0 < i" for i j
    using TopologyCounter_replicate[of "i + j" a] that by (simp add: replicate_add)
  then show ?thesis using b Node_eq_refl by auto
qed



theorem child_order_canonical_witness:
  "same_up_to_child_order example_topology_0 example_topology_1 \<and>
   (\<exists>a b. construct example_topology_0 = Inr a \<and> construct example_topology_1 = Inr b \<and>
      Tag b = Tag a \<and> Hash b = Hash a \<and> Node_eq a b \<and>
      TopologyCounter [a, b] = [(a, 2)])"
proof -
  obtain a where a: "construct example_topology_0 = Inr a"
    using example_topology_0_constructed by blast
  from child_order_canonical[OF example_topologies_same a] obtain b where
    b: "construct example_topology_1 = Inr b" "Tag b = Tag a" "Hash b = Hash a" "Node_eq a b"
    and c: "\<forall>i j. 0 < i \<longrightarrow> TopologyCounter (replicate i a @ replicate j b) = [(a, i + j)]"
    by blast
  have "TopologyCounter (replicate (Suc 0) a @ replicate (Suc 0) b) = [(a, Suc 0 + Suc 0)]"
    using c[rule_format, of "Suc 0" "Suc 0"] by simp
  then have d: "TopologyCounter [a, b] = [(a, 2)]" by simp
  have "construct example_topology_0 = Inr a \<and> construct example_topology_1 = Inr b \<and>
      Tag b = Tag a \<and> Hash b = Hash a \<and> Node_eq a b \<and>
      TopologyCounter [a, b] = [(a, 2)]"
    using a b d by simp
  then have "\<exists>a b. construct example_topology_0 = Inr a \<and> construct example_topology_1 = Inr b \<and>
      Tag b = Tag a \<and> Hash b = Hash a \<and> Node_eq a b \<and>
      TopologyCounter [a, b] = [(a, 2)]"
    by (intro exI)
  then show ?thesis using example_topologies_same by (rule_tac conjI)
qed

section \<open>Sampling an index\<close>

lemma weights_length:
  "range_end \<le> length v \<Longrightarrow>
   length (Exponentiate (ProbabilityNormalizeInLog
             (segment v range_start (range_end - range_start))))
     = range_end - range_start"
  by (simp add: Exponentiate_def ProbabilityNormalizeInLog_def segment_def)

lemma SampleIndex_Inr:
  "SampleIndex draw range_arg s g = Inr r \<Longrightarrow>
     fst (snd r) = s \<and> fst range_arg \<le> fst r \<and> fst r < snd range_arg \<and>
     snd range_arg \<le> length (sbn_parameters s)"
  by (auto simp: SampleIndex_def Let_def split: if_splits)

lemma always_first_contract:
  "weights \<noteq> [] \<Longrightarrow> fst (always_first weights g) < length weights"
  by (simp add: always_first_def)

text \<open>
  Claim C6. Let the sampler keep the contract of \<open>std::discrete_distribution\<close>: given
  a non-empty list of weights it returns a value below their number. Then
  \<open>SampleIndex\<close> on the range from \<open>range_start\<close> to \<open>range_end\<close> fails if and only
  if the range is empty (\<open>range_start \<ge> range_end\<close>) or out of bounds (\<open>range_end\<close> above
  the length of the parameter vector); an index it returns lies in the range; and the
  failure is never the assertion after the draw.
\<close>

theorem SampleIndex_range:
  assumes contract: "\<And>weights g. weights \<noteq> [] \<Longrightarrow> fst (draw weights g) < length weights"
  shows "((\<exists>e. SampleIndex draw (range_start, range_end) s g = Inl e) \<longleftrightarrow>
            (range_start \<ge> range_end \<or> range_end > length (sbn_parameters s))) \<and>
         (\<forall>result s' g'. SampleIndex draw (range_start, range_end) s g = Inr (result, s', g')
            \<longrightarrow> range_start \<le> result \<and> result < range_end) \<and>
         SampleIndex draw (range_start, range_end) s g \<noteq> Inl SampleIndexOutOfRange"
proof (cases "range_start < range_end \<and> range_end \<le> length (sbn_parameters s)")
  case False
  then show ?thesis by (auto simp: SampleIndex_def)
next
  case True
  let ?w = "Exponentiate (ProbabilityNormalizeInLog
              (segment (sbn_parameters s) range_start (range_end - range_start)))"
  have len: "length ?w = range_end - range_start"
    using True by (simp add: weights_length)
  then have "?w \<noteq> []" using True by auto
  then have "fst (draw ?w g) < range_end - range_start"
    using contract[of ?w g] len by simp
  then have lt: "range_start + fst (draw ?w g) < range_end" using True by linarith
  have "SampleIndex draw (range_start, range_end) s g =
          Inr (range_start + fst (draw ?w g), s, snd (draw ?w g))"
    using True lt by (simp add: SampleIndex_def Let_def)
  then show ?thesis using True lt by auto
qed

theorem SampleIndex_range_witness:
  "SampleIndex always_first (1, 3) star_instance () = Inr (1, star_instance, ()) \<and>
   SampleIndex always_first (1, 3) star_instance () \<noteq> Inl SampleIndexOutOfRange \<and>
   (\<exists>e. SampleIndex always_first (2, 2) star_instance () = Inl e) \<and>
   (\<exists>e. SampleIndex always_first (5, 7) star_instance () = Inl e)"
proof -
  have a: "SampleIndex always_first (1, 3) star_instance () = Inr (1, star_instance, ())"
    by (simp add: SampleIndex_def star_instance_def always_first_def Let_def)
  have "\<exists>e. SampleIndex always_first (2, 2) star_instance () = Inl e"
    using SampleIndex_range[of always_first 2 2 star_instance "()", OF always_first_contract]
    by simp
  moreover have "\<exists>e. SampleIndex always_first (5, 7) star_instance () = Inl e"
    using SampleIndex_range[of always_first 5 7 star_instance "()", OF always_first_contract]
    by (simp add: star_instance_def)
  moreover have "SampleIndex always_first (1, 3) star_instance () \<noteq> Inl SampleIndexOutOfRange"
    using SampleIndex_range[of always_first 1 3 star_instance "()", OF always_first_contract]
    by simp
  ultimately show ?thesis using a by simp
qed

section \<open>What sampling and scoring leave alone\<close>

lemma then_do_Inr:
  "then_do x f = Inr y \<longleftrightarrow> (\<exists>a. x = Inr a \<and> f a = Inr y)"
  by (cases x) auto

lemma process_subsplit_state:
  assumes sub: "\<And>child s g r. SampleTopology_subsplit depth draw child s g = Inr r
                  \<Longrightarrow> fst (snd r) = s"
    and h: "process_subsplit depth draw parent s g = Inr r"
  shows "fst (snd r) = s"
proof (cases "SingletonOption (SplitChunk parent 1)")
  case (Some i)
  then show ?thesis using h by auto
next
  case None
  then obtain range_arg q child where
    q: "SampleIndex draw range_arg s g = Inr q"
    and r: "SampleTopology_subsplit depth draw child (fst (snd q)) (snd (snd q)) = Inr r"
    using h by (auto simp: then_do_Inr)
  have "fst (snd q) = s" using SampleIndex_Inr[OF q] by simp
  moreover have "fst (snd r) = fst (snd q)" using sub[OF r] .
  ultimately show ?thesis by simp
qed

lemma SampleTopology_subsplit_state:
  "SampleTopology_subsplit depth draw parent s g = Inr r \<Longrightarrow> fst (snd r) = s"
proof (induction depth arbitrary: parent s g r)
  case 0
  then show ?case by simp
next
  case (Suc depth)
  from Suc.prems obtain r1 r2 where
    r1: "process_subsplit depth draw parent s g = Inr r1"
    and r2: "process_subsplit depth draw (RotateSubsplit parent) (fst (snd r1)) (snd (snd r1))
               = Inr r2"
    and r: "fst (snd r) = fst (snd r2)"
    by (auto simp: then_do_Inr simp del: process_subsplit.simps)
  have "fst (snd r1) = s" using process_subsplit_state[OF Suc.IH r1] .
  moreover have "fst (snd r2) = fst (snd r1)" using process_subsplit_state[OF Suc.IH r2] .
  ultimately show ?case using r by simp
qed

lemma SampleTopology_state:
  "SampleTopology depth draw rooted s g = Inr r \<Longrightarrow> fst (snd r) = s"
proof -
  assume h: "SampleTopology depth draw rooted s g = Inr r"
  then obtain q r2 where
    q: "SampleIndex draw (0, length (rootsplits s)) s g = Inr q"
    and r2: "SampleTopology_subsplit depth draw
               (rootsplits (fst (snd q)) ! fst q @ Bitset_flip (rootsplits (fst (snd q)) ! fst q))
               (fst (snd q)) (snd (snd q)) = Inr r2"
    and r: "fst (snd r) = fst (snd r2)"
    by (auto simp: SampleTopology_def then_do_Inr Let_def split: if_splits)
  have "fst (snd q) = s" using SampleIndex_Inr[OF q] by simp
  moreover have "fst (snd r2) = fst (snd q)" using SampleTopology_subsplit_state[OF r2] .
  ultimately show ?thesis using r by simp
qed

lemma SampleTrees_loop_result:
  "SampleTrees_loop depth draw edge_count cnt s g = Inr (s', g') \<Longrightarrow>
     same_maps s s' \<and>
     (\<exists>new. trees (tree_collection s') = trees (tree_collection s) @ new \<and> length new = cnt \<and>
        (\<forall>tree \<in> set new. branch_lengths tree = replicate (nat edge_count) 0 \<and>
           (\<exists>s0 g0 g1. same_maps s s0 \<and>
              SampleTopology depth draw False s0 g0 = Inr (Topology tree, s0, g1))))"
proof (induction cnt arbitrary: s g)
  case 0
  then show ?case by (simp add: same_maps_def)
next
  case (Suc cnt)
  from Suc.prems obtain r where
    r: "SampleTopology depth draw False s g = Inr r"
    and rest: "SampleTrees_loop depth draw edge_count cnt
                 ((fst (snd r))\<lparr>tree_collection := (tree_collection (fst (snd r)))
                    \<lparr>trees := trees (tree_collection (fst (snd r)))
                       @ [\<lparr>Topology = fst r, branch_lengths = replicate (nat edge_count) 0\<rparr>]\<rparr>\<rparr>)
                 (snd (snd r)) = Inr (s', g')"
    by (auto simp: then_do_Inr Let_def split: if_splits)
  have st: "fst (snd r) = s" using SampleTopology_state[OF r] .
  let ?tree = "\<lparr>Topology = fst r, branch_lengths = replicate (nat edge_count) (0::real)\<rparr>"
  let ?s2 = "s\<lparr>tree_collection :=
                 (tree_collection s)\<lparr>trees := trees (tree_collection s) @ [?tree]\<rparr>\<rparr>"
  from Suc.IH[of ?s2 "snd (snd r)"] rest st obtain new where
    m: "same_maps ?s2 s'" and
    new: "trees (tree_collection s') = trees (tree_collection ?s2) @ new" "length new = cnt"
      "\<forall>tree \<in> set new. branch_lengths tree = replicate (nat edge_count) 0 \<and>
           (\<exists>s0 g0 g1. same_maps ?s2 s0 \<and>
              SampleTopology depth draw False s0 g0 = Inr (Topology tree, s0, g1))"
    by auto
  have m': "same_maps s s'" using m by (simp add: same_maps_def)
  have sm: "\<And>s0. same_maps ?s2 s0 \<Longrightarrow> same_maps s s0" by (simp add: same_maps_def)
  have t: "SampleTopology depth draw False s g = Inr (Topology ?tree, s, snd (snd r))"
    using r st by (cases r) auto
  have "trees (tree_collection s') = trees (tree_collection s) @ (?tree # new)"
    using new(1) by simp
  moreover have "length (?tree # new) = Suc cnt" using new(2) by simp
  moreover have "\<forall>tree \<in> set (?tree # new).
           branch_lengths tree = replicate (nat edge_count) 0 \<and>
           (\<exists>s0 g0 g1. same_maps s s0 \<and>
              SampleTopology depth draw False s0 g0 = Inr (Topology tree, s0, g1))"
  proof
    fix tree assume "tree \<in> set (?tree # new)"
    then consider "tree = ?tree" | "tree \<in> set new" by auto
    then show "branch_lengths tree = replicate (nat edge_count) 0 \<and>
           (\<exists>s0 g0 g1. same_maps s s0 \<and>
              SampleTopology depth draw False s0 g0 = Inr (Topology tree, s0, g1))"
    proof cases
      case 1
      have "same_maps s s" by (simp add: same_maps_def)
      then show ?thesis using 1 t by auto
    next
      case 2
      then show ?thesis using new(3) sm by blast
    qed
  qed
  ultimately show ?case using m' by blast
qed

lemma SampleTrees_result:
  assumes "SampleTrees depth draw cnt s g = Inr (s', g')"
  shows "CheckSBNMapsAvailable s = Inr () \<and> same_maps s s' \<and>
         length (trees (tree_collection s')) = cnt \<and>
         (\<forall>tree \<in> set (trees (tree_collection s')).
            branch_lengths tree = replicate (2 * length (rootsplits s ! 0) - 2) 0 \<and>
            (\<exists>s0 g0 g1. same_maps s s0 \<and>
               SampleTopology depth draw False s0 g0 = Inr (Topology tree, s0, g1)))"
proof -
  let ?s1 = "s\<lparr>tree_collection := (tree_collection s)\<lparr>trees := []\<rparr>\<rparr>"
  let ?e = "2 * int (length (rootsplits s ! 0)) - 2"
  from assms have c: "CheckSBNMapsAvailable s = Inr ()"
    and l: "SampleTrees_loop depth draw ?e cnt ?s1 g = Inr (s', g')"
    by (auto simp: SampleTrees_def then_do_Inr Let_def)
  have n: "nat ?e = 2 * length (rootsplits s ! 0) - 2" by linarith
  from SampleTrees_loop_result[OF l] obtain new where
    m: "same_maps ?s1 s'" and
    new: "trees (tree_collection s') = trees (tree_collection ?s1) @ new" "length new = cnt"
      "\<forall>tree \<in> set new. branch_lengths tree = replicate (nat ?e) 0 \<and>
           (\<exists>s0 g0 g1. same_maps ?s1 s0 \<and>
              SampleTopology depth draw False s0 g0 = Inr (Topology tree, s0, g1))"
    by auto
  have sm: "\<And>s0. same_maps ?s1 s0 \<Longrightarrow> same_maps s s0" by (simp add: same_maps_def)
  have "trees (tree_collection s') = new" using new(1) by simp
  then show ?thesis using c m new(2,3) sm n by (auto simp: same_maps_def)
qed

lemma star_sample_topology:
  "SampleTopology 4 always_first False star_instance () = Inr (star_topology, star_instance, ())"
  by code_simp

lemma star_sample_trees:
  "succeeded (SampleTrees 4 always_first 2 star_instance ())"
  by code_simp

lemma succeeded_Inr: "succeeded r \<Longrightarrow> \<exists>x. r = Inr x"
  by (cases r) (simp_all add: succeeded_def)

section \<open>The parameters are written by nobody who samples or scores\<close>

lemma star_representations:
  "succeeded (MakeIndexerRepresentations star_instance)"
  by code_simp

text \<open>
  Claim C8. \<open>SampleIndex\<close> and \<open>CalculateSBNProbabilities\<close> return the instance with the
  parameter vector, the indexer and the parent-to-range map they were given: the
  normalisation and the exponentiation work on a copy of the (sub)vector. The same holds
  for \<open>SampleTopology\<close> and \<open>SampleTrees\<close>, which reach the parameters through
  \<open>SampleIndex\<close> only. Of the operations in the sources that come after the indexer has
  been built, this leaves the two training operations as the ones that are handed the
  parameter vector itself.
\<close>

theorem sampling_and_scoring_frame:
  "(\<forall>index s' g'. SampleIndex draw range_arg s g = Inr (index, s', g') \<longrightarrow>
      sbn_parameters s' = sbn_parameters s \<and> indexer s' = indexer s \<and>
      parent_to_range s' = parent_to_range s) \<and>
   (\<forall>probabilities s'. CalculateSBNProbabilities s = Inr (probabilities, s') \<longrightarrow>
      sbn_parameters s' = sbn_parameters s \<and> indexer s' = indexer s \<and>
      parent_to_range s' = parent_to_range s) \<and>
   (\<forall>topology s' g'. SampleTopology depth draw rooted s g = Inr (topology, s', g') \<longrightarrow>
      sbn_parameters s' = sbn_parameters s \<and> indexer s' = indexer s \<and>
      parent_to_range s' = parent_to_range s) \<and>
   (\<forall>s' g'. SampleTrees depth draw cnt s g = Inr (s', g') \<longrightarrow>
      sbn_parameters s' = sbn_parameters s \<and> indexer s' = indexer s \<and>
      parent_to_range s' = parent_to_range s)"
proof -
  have a: "s' = s" if "SampleIndex draw range_arg s g = Inr (index, s', g')" for index s' g'
    using SampleIndex_Inr[OF that] by simp
  have b: "s' = s" if "CalculateSBNProbabilities s = Inr (probabilities, s')"
    for probabilities s'
    using that by (auto simp: CalculateSBNProbabilities_def Let_def then_do_Inr)
  have c: "s' = s" if "SampleTopology depth draw rooted s g = Inr (topology, s', g')"
    for topology s' g'
    using SampleTopology_state[OF that] by simp
  have d: "same_maps s s'" if "SampleTrees depth draw cnt s g = Inr (s', g')" for s' g'
    using SampleTrees_result[OF that] by simp
  show ?thesis using a b c d by (auto simp: same_maps_def)
qed

theorem sampling_and_scoring_frame_witness:
  "SampleIndex always_first (0, 3) star_instance () = Inr (0, star_instance, ()) \<and>
   (\<exists>probabilities s'. CalculateSBNProbabilities star_instance = Inr (probabilities, s') \<and>
      sbn_parameters s' = [1, 1, 1, 1, 1, 1]) \<and>
   SampleTopology 4 always_first False star_instance ()
     = Inr (star_topology, star_instance, ()) \<and>
   (\<exists>s' g'. SampleTrees 4 always_first 2 star_instance () = Inr (s', g') \<and>
      sbn_parameters s' = [1, 1, 1, 1, 1, 1])"
proof -
  note frame = sampling_and_scoring_frame
    [of always_first "(0, 3)" star_instance "()" 4 False 2]
  have scoring: "sbn_parameters s' = sbn_parameters star_instance"
    if "CalculateSBNProbabilities star_instance = Inr (probabilities, s')"
    for probabilities s'
    using frame that by blast
  have sampling: "sbn_parameters s' = sbn_parameters star_instance"
    if "SampleTrees 4 always_first 2 star_instance () = Inr (s', g')" for s' g'
    using frame that by blast
  have p: "sbn_parameters star_instance = [1, 1, 1, 1, 1, 1]"
    by (simp add: star_instance_def)
  have a: "SampleIndex always_first (0, 3) star_instance () = Inr (0, star_instance, ())"
    by (simp add: SampleIndex_def star_instance_def always_first_def Let_def)
  obtain reps where "MakeIndexerRepresentations star_instance = Inr reps"
    using succeeded_Inr[OF star_representations] by blast
  then have "\<exists>probabilities s'.
      CalculateSBNProbabilities star_instance = Inr (probabilities, s')"
    by (simp add: CalculateSBNProbabilities_def Let_def)
  then obtain probabilities s1 where
    b: "CalculateSBNProbabilities star_instance = Inr (probabilities, s1)" by blast
  have b': "sbn_parameters s1 = [1, 1, 1, 1, 1, 1]" using scoring[OF b] p by simp
  obtain r where "SampleTrees 4 always_first 2 star_instance () = Inr r"
    using succeeded_Inr[OF star_sample_trees] by blast
  then obtain s2 g2 where r: "SampleTrees 4 always_first 2 star_instance () = Inr (s2, g2)"
    by (cases r) auto
  have r': "sbn_parameters s2 = [1, 1, 1, 1, 1, 1]" using sampling[OF r] p by simp
  show ?thesis using a b b' star_sample_topology r r' by blast
qed

section \<open>Building on nothing, sampling from nothing\<close>

theorem empty_build_succeeds:
  "ProcessLoadedTrees empty_instance = Inr empty_instance"
  by code_simp

lemma ProcessLoadedTrees_no_trees:
  assumes "trees (tree_collection s) = []"
  shows "ProcessLoadedTrees s =
           Inr (s\<lparr>sbn_parameters := [], rootsplits := [], indexer := [], index_to_child := [],
                  parent_to_range := [], topology_counter := [],
                  taxon_names := TaxonNames (tree_collection s)\<rparr>)"
  using assms
  by (simp add: ProcessLoadedTrees_def ClearTreeCollectionAssociatedState_def
      TopologyCounter_def RootsplitCounterOf_def PCSSCounterOf_def BuildIndexer_def Let_def)

text \<open>
  Claim C4, as amended. \<open>ProcessLoadedTrees\<close> on an instance whose tree collection is
  empty does not fail: it returns the instance with an empty indexer, no rootsplits, an
  empty parent-to-range map, an empty index-to-child map and a parameter vector of
  length zero. Sampling on an instance one of whose SBN maps is empty fails at once:
  \<open>SampleTrees\<close> with "Please call ProcessLoadedTrees to prepare your SBN maps.", and
  \<open>SampleTopology\<close> on an instance without rootsplits with "SampleIndex given an invalid
  range.".
\<close>

theorem empty_build_and_unbuilt_sampling:
  "(trees (tree_collection s) = [] \<longrightarrow>
      (\<exists>s'. ProcessLoadedTrees s = Inr s' \<and> indexer s' = [] \<and> rootsplits s' = [] \<and>
         parent_to_range s' = [] \<and> index_to_child s' = [] \<and> sbn_parameters s' = [])) \<and>
   (indexer s = [] \<or> index_to_child s = [] \<or> parent_to_range s = [] \<or>
    rootsplits s = [] \<or> taxon_names s = [] \<longrightarrow>
      SampleTrees depth draw cnt s g = Inl SBNMapsUnavailable) \<and>
   (rootsplits s = [] \<longrightarrow>
      SampleTopology depth draw rooted s g = Inl SampleIndexInvalidRange)"
proof -
  have a: "trees (tree_collection s) = [] \<longrightarrow>
      (\<exists>s'. ProcessLoadedTrees s = Inr s' \<and> indexer s' = [] \<and> rootsplits s' = [] \<and>
         parent_to_range s' = [] \<and> index_to_child s' = [] \<and> sbn_parameters s' = [])"
    using ProcessLoadedTrees_no_trees[of s] by auto
  have b: "indexer s = [] \<or> index_to_child s = [] \<or> parent_to_range s = [] \<or>
    rootsplits s = [] \<or> taxon_names s = [] \<longrightarrow>
      SampleTrees depth draw cnt s g = Inl SBNMapsUnavailable"
    by (auto simp: SampleTrees_def CheckSBNMapsAvailable_def)
  have c: "rootsplits s = [] \<longrightarrow>
      SampleTopology depth draw rooted s g = Inl SampleIndexInvalidRange"
    by (simp add: SampleTopology_def SampleIndex_def)
  show ?thesis using a b c by blast
qed

theorem empty_build_and_unbuilt_sampling_witness:
  "trees (tree_collection empty_instance) = [] \<and> rootsplits empty_instance = [] \<and>
   (\<exists>s'. ProcessLoadedTrees empty_instance = Inr s' \<and> sbn_parameters s' = []) \<and>
   SampleTrees 4 always_first 2 empty_instance () = Inl SBNMapsUnavailable \<and>
   SampleTopology 4 always_first False empty_instance () = Inl SampleIndexInvalidRange"
proof -
  have e: "trees (tree_collection empty_instance) = []" "rootsplits empty_instance = []"
    by (simp_all add: empty_instance_def)
  note t = empty_build_and_unbuilt_sampling[of empty_instance 4 always_first 2 "()" False]
  have "\<exists>s'. ProcessLoadedTrees empty_instance = Inr s' \<and> sbn_parameters s' = []"
    using t e(1) by blast
  moreover have "SampleTrees 4 always_first 2 empty_instance () = Inl SBNMapsUnavailable"
    using t e(2) by blast
  moreover have "SampleTopology 4 always_first False empty_instance ()
                   = Inl SampleIndexInvalidRange"
    using t e(2) by blast
  ultimately show ?thesis using e by blast
qed

section \<open>The self-check of the ratio gradient\<close>

lemma RatioGradient_finish_iff:
  assumes "k < length density" and "length jacobian = length density"
    and "parameters ! k \<noteq> 0"
  shows "(\<exists>gradient. RatioGradient_finish density height_density jacobian height_jacobian
             parameters k = Inr gradient)
         \<longleftrightarrow> height_jacobian = 1 / parameters ! k"
  using assms by (auto simp: RatioGradient_finish_def Let_def)

text \<open>
  Claim C9 fails on the code. For a rooted tree with two leaves the root is the only
  internal node: the height gradient, the log-time array and both results of
  \<open>UpdateGradientUnWeightedLogDensity\<close> are the one-element vector of zero, so that both
  calls of \<open>UpdateHeightParameterGradientUnweightedLogDensity\<close> return zero. With a root
  height of two the in-place subtraction leaves one half in \<open>temp\<close>, the recomputed
  entry is zero, and the assertion fails.
\<close>

theorem RatioGradient_two_leaves:
  "RatioGradient_finish [0] 0 [0] 0 [2] 0 = Inl RatioGradientAssertion"
  by (simp add: RatioGradient_finish_def Let_def)

section \<open>The sentinel of the indexer representations\<close>

lemma sequence_results_nth:
  "sequence_results rs = Inr xs \<Longrightarrow>
     length xs = length rs \<and> (\<forall>i < length rs. rs ! i = Inr (xs ! i))"
  by (simp add: sequence_results_Inr)

lemma four_taxon_built: "ProcessLoadedTrees four_taxon_loaded = Inr four_taxon_instance"
  by code_simp

lemma query_representations:
  "MakeIndexerRepresentations query_instance
     = Inr [[[0, 15, 15], [1, 15, 15], [3, 15, 15], [4, 15, 15], [15, 15, 15]]]"
  by code_simp

text \<open>
  Claim C5. When \<open>MakeIndexerRepresentations\<close> returns, it returns one representation
  per tree of the collection, and the representation of a tree is the sequence of its
  rooted views with every rootsplit or PCSS key replaced by its slot in the indexer
  when the indexer has the key, and by the length of the parameter vector when it has
  not.
\<close>

theorem MakeIndexerRepresentations_sentinel:
  assumes "MakeIndexerRepresentations s = Inr representations"
  shows "length representations = length (trees (tree_collection s)) \<and>
         (\<forall>i < length representations.
            \<exists>views. RootedViews (Topology (trees (tree_collection s) ! i)) = Inr views \<and>
              representations ! i =
                map (map (\<lambda>key. case map_of (indexer s) key of
                                   Some slot \<Rightarrow> slot
                                 | None \<Rightarrow> length (sbn_parameters s))) views)"
proof -
  let ?f = "\<lambda>tree. IndexerRepresentationOf (indexer s) (Topology tree)
                      (length (sbn_parameters s))"
  let ?ts = "trees (tree_collection s)"
  from assms have "sequence_results (map ?f ?ts) = Inr representations"
    by (simp add: MakeIndexerRepresentations_def)
  from sequence_results_nth[OF this]
  have len: "length representations = length ?ts"
    and nth: "\<forall>i < length ?ts. ?f (?ts ! i) = Inr (representations ! i)"
    by simp_all
  have "\<exists>views. RootedViews (Topology (?ts ! i)) = Inr views \<and>
              representations ! i =
                map (map (\<lambda>key. case map_of (indexer s) key of
                                   Some slot \<Rightarrow> slot
                                 | None \<Rightarrow> length (sbn_parameters s))) views"
    if "i < length representations" for i
  proof -
    have "?f (?ts ! i) = Inr (representations ! i)" using nth that len by simp
    then show ?thesis
      by (auto simp: IndexerRepresentationOf_def AtWithDefault_def then_do_Inr)
  qed
  then show ?thesis using len by blast
qed

theorem MakeIndexerRepresentations_sentinel_witness:
  "MakeIndexerRepresentations query_instance
     = Inr [[[0, 15, 15], [1, 15, 15], [3, 15, 15], [4, 15, 15], [15, 15, 15]]] \<and>
   length (sbn_parameters query_instance) = 15 \<and>
   (\<exists>views. RootedViews other_topology = Inr views \<and>
      [[0, 15, 15], [1, 15, 15], [3, 15, 15], [4, 15, 15], [15, 15, 15]] =
        map (map (\<lambda>key. case map_of (indexer query_instance) key of
                           Some slot \<Rightarrow> slot | None \<Rightarrow> 15)) views)"
proof -
  have l: "length (sbn_parameters query_instance) = 15"
    by (simp add: query_instance_def four_taxon_instance_def)
  have t: "Topology (trees (tree_collection query_instance) ! 0) = other_topology"
    by (simp add: query_instance_def four_taxon_collection_def)
  let ?rep = "[[0, 15, 15], [1, 15, 15], [3, 15, 15], [4, 15, 15], [15, 15, 15 :: nat]]"
  note th = MakeIndexerRepresentations_sentinel[OF query_representations]
  have z: "(0 :: nat) < length [?rep]" by simp
  from th[THEN conjunct2, rule_format, OF z]
  obtain views where v: "RootedViews (Topology (trees (tree_collection query_instance) ! 0))
                  = Inr views"
    "[?rep] ! 0 =
            map (map (\<lambda>key. case map_of (indexer query_instance) key of
                               Some slot \<Rightarrow> slot
                             | None \<Rightarrow> length (sbn_parameters query_instance))) views"
    by blast
  have a: "RootedViews other_topology = Inr views" using v(1) t by simp
  have b: "?rep = map (map (\<lambda>key. case map_of (indexer query_instance) key of
                           Some slot \<Rightarrow> slot | None \<Rightarrow> 15)) views"
    using v(2) unfolding l by simp
  show ?thesis
    by (intro conjI exI[of _ views]) (rule query_representations, rule l, rule a, rule b)
qed

section \<open>The layout of the indexer\<close>

lemma SafeInsert_Inr:
  "SafeInsert m k v = Inr m' \<longleftrightarrow> k \<notin> fst ` set m \<and> m' = m @ [(k, v)]"
  by (auto simp: SafeInsert_def)

lemma upt_head: "[i ..< i + length (x # xs)] = i # [Suc i ..< Suc i + length xs]"
proof -
  have lt: "i < i + length (x # xs)" by simp
  have e: "i + length (x # xs) = Suc i + length xs" by simp
  show ?thesis using upt_conv_Cons[OF lt] unfolding e .
qed

lemma upt_split: "[i ..< i + (m + n)] = [i ..< i + m] @ [i + m ..< i + m + n]"
proof -
  have "[i ..< i + m + n] = [i ..< i + m] @ [i + m ..< i + m + n]"
    by (rule upt_add_eq_append) simp
  then show ?thesis by (simp only: add.assoc)
qed

lemma add_rootsplit_Inr:
  "add_rootsplit iter (s, i) = Inr (s', i') \<longleftrightarrow>
     fst iter \<notin> fst ` set (indexer s) \<and>
     s' = s\<lparr>indexer := indexer s @ [(fst iter, i)], rootsplits := rootsplits s @ [fst iter]\<rparr> \<and>
     i' = i + 1"
  by (auto simp: add_rootsplit_def Let_def then_do_Inr SafeInsert_Inr)

lemma add_rootsplits_result:
  "for_each add_rootsplit rc (s, i) = Inr (s', i') \<Longrightarrow>
     map fst (indexer s') = map fst (indexer s) @ map fst rc \<and>
     map snd (indexer s') = map snd (indexer s) @ [i ..< i + length rc] \<and>
     rootsplits s' = rootsplits s @ map fst rc \<and>
     i' = i + length rc \<and>
     parent_to_range s' = parent_to_range s \<and>
     topology_counter s' = topology_counter s \<and>
     tree_collection s' = tree_collection s \<and>
     (distinct (map fst (indexer s)) \<longrightarrow> distinct (map fst (indexer s')))"
proof (induction rc arbitrary: s i)
  case Nil
  then show ?case by simp
next
  case (Cons iter rc)
  from Cons.prems obtain st1 where
    a: "add_rootsplit iter (s, i) = Inr st1" and b: "for_each add_rootsplit rc st1 = Inr (s', i')"
    by (auto simp: then_do_Inr)
  obtain s1 i1 where st1: "st1 = (s1, i1)" by (cases st1)
  from a st1 have n: "fst iter \<notin> fst ` set (indexer s)"
    and s1: "s1 = s\<lparr>indexer := indexer s @ [(fst iter, i)],
                     rootsplits := rootsplits s @ [fst iter]\<rparr>"
    and i1: "i1 = Suc i"
    by (simp_all add: add_rootsplit_Inr)
  have f: "map fst (indexer s1) = map fst (indexer s) @ [fst iter]"
    "map snd (indexer s1) = map snd (indexer s) @ [i]"
    "rootsplits s1 = rootsplits s @ [fst iter]"
    "parent_to_range s1 = parent_to_range s" "topology_counter s1 = topology_counter s"
    "tree_collection s1 = tree_collection s"
    by (simp_all add: s1)
  have b': "for_each add_rootsplit rc (s1, Suc i) = Inr (s', i')" using b st1 i1 by simp
  note ih = Cons.IH[OF b']
  have h1: "map fst (indexer s') = map fst (indexer s1) @ map fst rc" using ih by blast
  have h2: "map snd (indexer s') = map snd (indexer s1) @ [Suc i ..< Suc i + length rc]"
    using ih by blast
  have h3: "rootsplits s' = rootsplits s1 @ map fst rc" using ih by blast
  have h4: "i' = Suc i + length rc" using ih by blast
  have h5: "parent_to_range s' = parent_to_range s1" using ih by blast
  have h6: "topology_counter s' = topology_counter s1" using ih by blast
  have h7: "tree_collection s' = tree_collection s1" using ih by blast
  have h8: "distinct (map fst (indexer s1)) \<longrightarrow> distinct (map fst (indexer s'))"
    using ih by blast
  have r1: "map fst (indexer s') = map fst (indexer s) @ map fst (iter # rc)"
    unfolding h1 f(1) by simp
  have r2: "map snd (indexer s') = map snd (indexer s) @ [i ..< i + length (iter # rc)]"
    unfolding h2 f(2) upt_head by simp
  have r3: "rootsplits s' = rootsplits s @ map fst (iter # rc)"
    unfolding h3 f(3) by simp
  have r4: "i' = i + length (iter # rc)" unfolding h4 by simp
  have r5: "parent_to_range s' = parent_to_range s" unfolding h5 f(4) ..
  have r6: "topology_counter s' = topology_counter s" unfolding h6 f(5) ..
  have r7: "tree_collection s' = tree_collection s" unfolding h7 f(6) ..
  have d1: "distinct (map fst (indexer s)) \<Longrightarrow> distinct (map fst (indexer s1))"
    unfolding f(1) using n by auto
  have r8: "distinct (map fst (indexer s)) \<longrightarrow> distinct (map fst (indexer s'))"
    using h8 d1 by blast
  show ?case
    by (intro conjI) (rule r1, rule r2, rule r3, rule r4, rule r5, rule r6, rule r7, rule r8)
qed

lemma add_child_Inr:
  "add_child parent child_iter (s, i) = Inr (s', i') \<longleftrightarrow>
     (parent @ fst child_iter) \<notin> fst ` set (indexer s) \<and>
     i \<notin> fst ` set (index_to_child s) \<and>
     s' = s\<lparr>indexer := indexer s @ [(parent @ fst child_iter, i)],
            index_to_child := index_to_child s @ [(i, ChildSubsplit parent (fst child_iter))]\<rparr> \<and>
     i' = i + 1"
  by (auto simp: add_child_def Let_def then_do_Inr SafeInsert_Inr)

lemma add_children_result:
  "for_each (add_child parent) d (s, i) = Inr (s', i') \<Longrightarrow>
     map fst (indexer s') = map fst (indexer s) @ map (\<lambda>c. parent @ fst c) d \<and>
     map snd (indexer s') = map snd (indexer s) @ [i ..< i + length d] \<and>
     rootsplits s' = rootsplits s \<and>
     i' = i + length d \<and>
     parent_to_range s' = parent_to_range s \<and>
     topology_counter s' = topology_counter s \<and>
     tree_collection s' = tree_collection s \<and>
     (distinct (map fst (indexer s)) \<longrightarrow> distinct (map fst (indexer s')))"
proof (induction d arbitrary: s i)
  case Nil
  then show ?case by simp
next
  case (Cons c d)
  from Cons.prems obtain st1 where
    a: "add_child parent c (s, i) = Inr st1"
    and b: "for_each (add_child parent) d st1 = Inr (s', i')"
    by (auto simp: then_do_Inr)
  obtain s1 i1 where st1: "st1 = (s1, i1)" by (cases st1)
  from a st1 have n: "(parent @ fst c) \<notin> fst ` set (indexer s)"
    and s1: "s1 = s\<lparr>indexer := indexer s @ [(parent @ fst c, i)],
            index_to_child := index_to_child s @ [(i, ChildSubsplit parent (fst c))]\<rparr>"
    and i1: "i1 = Suc i"
    by (simp_all add: add_child_Inr)
  have f: "map fst (indexer s1) = map fst (indexer s) @ [parent @ fst c]"
    "map snd (indexer s1) = map snd (indexer s) @ [i]"
    "rootsplits s1 = rootsplits s"
    "parent_to_range s1 = parent_to_range s" "topology_counter s1 = topology_counter s"
    "tree_collection s1 = tree_collection s"
    by (simp_all add: s1)
  have b': "for_each (add_child parent) d (s1, Suc i) = Inr (s', i')" using b st1 i1 by simp
  note ih = Cons.IH[OF b']
  have h1: "map fst (indexer s') = map fst (indexer s1) @ map (\<lambda>c. parent @ fst c) d"
    using ih by blast
  have h2: "map snd (indexer s') = map snd (indexer s1) @ [Suc i ..< Suc i + length d]"
    using ih by blast
  have h3: "rootsplits s' = rootsplits s1" using ih by blast
  have h4: "i' = Suc i + length d" using ih by blast
  have h5: "parent_to_range s' = parent_to_range s1" using ih by blast
  have h6: "topology_counter s' = topology_counter s1" using ih by blast
  have h7: "tree_collection s' = tree_collection s1" using ih by blast
  have h8: "distinct (map fst (indexer s1)) \<longrightarrow> distinct (map fst (indexer s'))"
    using ih by blast
  have r1: "map fst (indexer s') = map fst (indexer s) @ map (\<lambda>c. parent @ fst c) (c # d)"
    unfolding h1 f(1) by simp
  have r2: "map snd (indexer s') = map snd (indexer s) @ [i ..< i + length (c # d)]"
    unfolding h2 f(2) upt_head by simp
  have r3: "rootsplits s' = rootsplits s" unfolding h3 f(3) ..
  have r4: "i' = i + length (c # d)" unfolding h4 by simp
  have r5: "parent_to_range s' = parent_to_range s" unfolding h5 f(4) ..
  have r6: "topology_counter s' = topology_counter s" unfolding h6 f(5) ..
  have r7: "tree_collection s' = tree_collection s" unfolding h7 f(6) ..
  have d1: "distinct (map fst (indexer s)) \<Longrightarrow> distinct (map fst (indexer s1))"
    unfolding f(1) using n by auto
  have r8: "distinct (map fst (indexer s)) \<longrightarrow> distinct (map fst (indexer s'))"
    using h8 d1 by blast
  show ?case
    by (intro conjI) (rule r1, rule r2, rule r3, rule r4, rule r5, rule r6, rule r7, rule r8)
qed

lemma add_parent_Inr:
  "add_parent iter (s, i) = Inr st' \<longleftrightarrow>
     fst iter \<notin> fst ` set (parent_to_range s) \<and>
     for_each (add_child (fst iter)) (snd iter)
       (s\<lparr>parent_to_range := parent_to_range s @ [(fst iter, i, i + length (snd iter))]\<rparr>, i)
       = Inr st'"
  by (auto simp: add_parent_def Let_def then_do_Inr SafeInsert_Inr)

lemma length_pcss_keys: "length (pcss_keys pc) = pcss_count pc"
  by (induction pc) (simp_all add: pcss_keys_def pcss_count_def)

lemma add_parents_result:
  "for_each add_parent pc (s, i) = Inr (s', i') \<Longrightarrow>
     map fst (indexer s') = map fst (indexer s) @ pcss_keys pc \<and>
     map snd (indexer s') = map snd (indexer s) @ [i ..< i + pcss_count pc] \<and>
     rootsplits s' = rootsplits s \<and>
     i' = i + pcss_count pc \<and>
     parent_to_range s' = parent_to_range s @ blocks pc i \<and>
     topology_counter s' = topology_counter s \<and>
     tree_collection s' = tree_collection s \<and>
     (distinct (map fst (indexer s)) \<longrightarrow> distinct (map fst (indexer s'))) \<and>
     (distinct (map fst (parent_to_range s)) \<longrightarrow> distinct (map fst (parent_to_range s')))"
proof (induction pc arbitrary: s i)
  case Nil
  then show ?case by (simp add: pcss_keys_def pcss_count_def)
next
  case (Cons iter pc)
  from Cons.prems obtain st1 where
    a: "add_parent iter (s, i) = Inr st1"
    and b: "for_each add_parent pc st1 = Inr (s', i')"
    by (auto simp: then_do_Inr)
  obtain s1 i1 where st1: "st1 = (s1, i1)" by (cases st1)
  define s0 where
    "s0 = s\<lparr>parent_to_range := parent_to_range s @ [(fst iter, i, i + length (snd iter))]\<rparr>"
  define d where "d = snd iter"
  from a st1 have n: "fst iter \<notin> fst ` set (parent_to_range s)"
    and a2: "for_each (add_child (fst iter)) d (s0, i) = Inr (s1, i1)"
    by (simp_all add: add_parent_Inr s0_def d_def)
  have f0: "indexer s0 = indexer s" "rootsplits s0 = rootsplits s"
    "parent_to_range s0 = parent_to_range s @ [(fst iter, i, i + length d)]"
    "topology_counter s0 = topology_counter s" "tree_collection s0 = tree_collection s"
    by (simp_all add: s0_def d_def)
  note c = add_children_result[OF a2]
  have f1: "map fst (indexer s1) = map fst (indexer s) @ map (\<lambda>c. fst iter @ fst c) d"
    using c[THEN conjunct1] unfolding f0(1) .
  have f1': "map snd (indexer s1) = map snd (indexer s) @ [i ..< i + length d]"
    using c[THEN conjunct2, THEN conjunct1] unfolding f0(1) .
  have f2: "rootsplits s1 = rootsplits s" using c f0(2) by simp
  have f3: "i1 = i + length d" using c by blast
  have f4: "parent_to_range s1 = parent_to_range s @ [(fst iter, i, i + length d)]"
    using c f0(3) by simp
  have f5: "topology_counter s1 = topology_counter s" using c f0(4) by simp
  have f6: "tree_collection s1 = tree_collection s" using c f0(5) by simp
  have f7: "distinct (map fst (indexer s)) \<longrightarrow> distinct (map fst (indexer s1))"
    using c unfolding f0(1) by blast
  have b': "for_each add_parent pc (s1, i + length d) = Inr (s', i')" using b st1 f3 by simp
  note ih = Cons.IH[OF b']
  have h1: "map fst (indexer s') = map fst (indexer s1) @ pcss_keys pc" using ih by blast
  have h2: "map snd (indexer s')
              = map snd (indexer s1) @ [i + length d ..< i + length d + pcss_count pc]"
    using ih by blast
  have h3: "rootsplits s' = rootsplits s1" using ih by blast
  have h4: "i' = i + length d + pcss_count pc" using ih by blast
  have h5: "parent_to_range s' = parent_to_range s1 @ blocks pc (i + length d)"
    using ih by blast
  have h6: "topology_counter s' = topology_counter s1" using ih by blast
  have h7: "tree_collection s' = tree_collection s1" using ih by blast
  have h8: "distinct (map fst (indexer s1)) \<longrightarrow> distinct (map fst (indexer s'))"
    using ih by blast
  have h9: "distinct (map fst (parent_to_range s1))
              \<longrightarrow> distinct (map fst (parent_to_range s'))"
    using ih by blast
  have k: "pcss_keys (iter # pc) = map (\<lambda>c. fst iter @ fst c) d @ pcss_keys pc"
    by (simp add: pcss_keys_def d_def)
  have m: "pcss_count (iter # pc) = length d + pcss_count pc"
    by (simp add: pcss_count_def d_def)
  have bl: "blocks (iter # pc) i = (fst iter, i, i + length d) # blocks pc (i + length d)"
    by (simp add: d_def)
  have r1: "map fst (indexer s') = map fst (indexer s) @ pcss_keys (iter # pc)"
    unfolding h1 f1 k by simp
  have r2: "map snd (indexer s') = map snd (indexer s) @ [i ..< i + pcss_count (iter # pc)]"
    unfolding h2 f1' m upt_split by simp
  have r3: "rootsplits s' = rootsplits s" unfolding h3 f2 ..
  have r4: "i' = i + pcss_count (iter # pc)" unfolding h4 m by simp
  have r5: "parent_to_range s' = parent_to_range s @ blocks (iter # pc) i"
    unfolding h5 f4 bl by simp
  have r6: "topology_counter s' = topology_counter s" unfolding h6 f5 ..
  have r7: "tree_collection s' = tree_collection s" unfolding h7 f6 ..
  have r8: "distinct (map fst (indexer s)) \<longrightarrow> distinct (map fst (indexer s'))"
    using h8 f7 by blast
  have d2: "distinct (map fst (parent_to_range s)) \<Longrightarrow> distinct (map fst (parent_to_range s1))"
    unfolding f4 using n by auto
  have r9: "distinct (map fst (parent_to_range s))
              \<longrightarrow> distinct (map fst (parent_to_range s'))"
    using h9 d2 by blast
  show ?case
    by (intro conjI)
      (rule r1, rule r2, rule r3, rule r4, rule r5, rule r6, rule r7, rule r8, rule r9)
qed

lemma blocks_keys: "map fst (blocks pc i) = map fst pc"
  by (induction pc arbitrary: i) simp_all

lemma blocks_ranges:
  "concat (map (\<lambda>entry. [fst (snd entry) ..< snd (snd entry)]) (blocks pc i))
     = [i ..< i + pcss_count pc]"
proof (induction pc arbitrary: i)
  case Nil
  then show ?case by (simp add: pcss_count_def)
next
  case (Cons entry pc)
  have m: "pcss_count (entry # pc) = length (snd entry) + pcss_count pc"
    by (simp add: pcss_count_def)
  have "concat (map (\<lambda>entry. [fst (snd entry) ..< snd (snd entry)]) (blocks (entry # pc) i))
          = [i ..< i + length (snd entry)]
              @ [i + length (snd entry) ..< i + length (snd entry) + pcss_count pc]"
    using Cons.IH[of "i + length (snd entry)"] by simp
  then show ?case unfolding m upt_split .
qed

lemma BuildIndexer_result:
  assumes b: "BuildIndexer rc pc s = Inr s'"
    and e: "indexer s = []" "rootsplits s = []" "parent_to_range s = []"
  shows "map fst (indexer s') = map fst rc @ pcss_keys pc \<and>
         map snd (indexer s') = [0 ..< length rc + pcss_count pc] \<and>
         distinct (map fst (indexer s')) \<and>
         rootsplits s' = map fst rc \<and>
         parent_to_range s' = blocks pc (length rc) \<and>
         distinct (map fst (parent_to_range s')) \<and>
         sbn_parameters s' = replicate (length rc + pcss_count pc) 1 \<and>
         topology_counter s' = topology_counter s \<and>
         tree_collection s' = tree_collection s"
proof -
  from b obtain st1 st2 where
    l1: "for_each add_rootsplit rc (s, 0) = Inr st1"
    and l2: "for_each add_parent pc st1 = Inr st2"
    and s': "s' = (fst st2)\<lparr>sbn_parameters := replicate (snd st2) 1\<rparr>"
    by (auto simp: BuildIndexer_def then_do_Inr)
  obtain sa ia where st1: "st1 = (sa, ia)" by (cases st1)
  obtain sb ib where st2: "st2 = (sb, ib)" by (cases st2)
  have l1': "for_each add_rootsplit rc (s, 0) = Inr (sa, ia)" using l1 st1 by simp
  note a = add_rootsplits_result[OF l1']
  have a1: "map fst (indexer sa) = map fst rc" using a e(1) by simp
  have a2: "map snd (indexer sa) = [0 ..< length rc]" using a e(1) by simp
  have a3: "rootsplits sa = map fst rc" using a e(2) by simp
  have a4: "ia = length rc" using a by simp
  have a5: "parent_to_range sa = []" using a e(3) by simp
  have a6: "topology_counter sa = topology_counter s" using a by blast
  have a7: "tree_collection sa = tree_collection s" using a by blast
  have a8': "distinct (map fst (indexer s)) \<longrightarrow> distinct (map fst (indexer sa))"
    using a by blast
  have a8: "distinct (map fst (indexer sa))" using a8' unfolding e(1) by simp
  have l2': "for_each add_parent pc (sa, length rc) = Inr (sb, ib)" using l2 st1 st2 a4 by simp
  note p = add_parents_result[OF l2']
  have p1: "map fst (indexer sb) = map fst rc @ pcss_keys pc" using p a1 by simp
  have p2: "map snd (indexer sb) = [0 ..< length rc] @ [length rc ..< length rc + pcss_count pc]"
    using p a2 by simp
  have p2': "map snd (indexer sb) = [0 ..< length rc + pcss_count pc]"
    unfolding p2 using upt_split[of 0 "length rc" "pcss_count pc"] by simp
  have p3: "rootsplits sb = map fst rc" using p a3 by simp
  have p4: "ib = length rc + pcss_count pc" using p by blast
  have p5: "parent_to_range sb = blocks pc (length rc)" using p a5 by simp
  have p6: "topology_counter sb = topology_counter s" using p a6 by simp
  have p7: "tree_collection sb = tree_collection s" using p a7 by simp
  have p8: "distinct (map fst (indexer sb))" using p a8 by blast
  have p9': "distinct (map fst (parent_to_range sa))
               \<longrightarrow> distinct (map fst (parent_to_range sb))"
    using p by blast
  have p9: "distinct (map fst (parent_to_range sb))" using p9' unfolding a5 by simp
  have s'': "s' = sb\<lparr>sbn_parameters := replicate (length rc + pcss_count pc) 1\<rparr>"
    using s' st2 p4 by simp
  show ?thesis unfolding s'' using p1 p2' p3 p5 p6 p7 p8 p9 by simp
qed

lemma indexer_lookup:
  assumes "distinct (map fst ix)" and "map snd ix = [0 ..< length ix]" and "n < length ix"
  shows "map_of ix (map fst ix ! n) = Some n"
proof -
  have z: "ix = zip (map fst ix) (map snd ix)" by (simp add: zip_map_fst_snd)
  have "map_of (zip (map fst ix) (map snd ix)) (map fst ix ! n) = Some (map snd ix ! n)"
    by (rule map_of_zip_nth) (use assms in simp_all)
  then have "map_of ix (map fst ix ! n) = Some (map snd ix ! n)" using z by simp
  then show ?thesis using assms(2,3) by simp
qed

lemma indexer_bijection:
  assumes d: "distinct (map fst ix)" and v: "map snd ix = [0 ..< length ix]"
  shows "bij_betw (\<lambda>key. the (map_of ix key)) (set (map fst ix)) {0 ..< length ix}"
proof (rule bij_betw_byWitness[where f' = "\<lambda>n. map fst ix ! n"])
  show "\<forall>key \<in> set (map fst ix). map fst ix ! the (map_of ix key) = key"
  proof
    fix key assume "key \<in> set (map fst ix)"
    then obtain n where n: "n < length ix" "key = map fst ix ! n"
      by (metis in_set_conv_nth length_map)
    then show "map fst ix ! the (map_of ix key) = key"
      using indexer_lookup[OF d v n(1)] by simp
  qed
  show "\<forall>n \<in> {0 ..< length ix}. the (map_of ix (map fst ix ! n)) = n"
    using indexer_lookup[OF d v] by simp
  show "(\<lambda>key. the (map_of ix key)) ` set (map fst ix) \<subseteq> {0 ..< length ix}"
  proof
    fix m assume "m \<in> (\<lambda>key. the (map_of ix key)) ` set (map fst ix)"
    then obtain key where k: "key \<in> set (map fst ix)" "m = the (map_of ix key)" by blast
    then obtain n where n: "n < length ix" "key = map fst ix ! n"
      by (metis in_set_conv_nth length_map)
    then show "m \<in> {0 ..< length ix}" using k(2) indexer_lookup[OF d v n(1)] by simp
  qed
  show "(\<lambda>n. map fst ix ! n) ` {0 ..< length ix} \<subseteq> set (map fst ix)"
    by auto
qed

lemma pcss_count_Cons:
  "pcss_count (entry # pc) = length (snd entry) + pcss_count pc"
  by (simp add: pcss_count_def)

lemma pcss_keys_Cons:
  "pcss_keys (entry # pc) = map (\<lambda>c. fst entry @ fst c) (snd entry) @ pcss_keys pc"
  by (simp add: pcss_keys_def)

lemma pcss_key_position:
  "j < length pc \<Longrightarrow> k < length (snd (pc ! j)) \<Longrightarrow>
     pcss_keys pc ! (pcss_count (take j pc) + k) = fst (pc ! j) @ fst (snd (pc ! j) ! k) \<and>
     pcss_count (take j pc) + k < pcss_count pc"
proof (induction pc arbitrary: j)
  case Nil
  then show ?case by simp
next
  case (Cons entry pc)
  show ?case
  proof (cases j)
    case 0
    have "pcss_count (take 0 (entry # pc)) = 0" by (simp add: pcss_count_def)
    then show ?thesis using 0 Cons.prems
      by (simp add: pcss_keys_Cons pcss_count_Cons nth_append)
  next
    case (Suc j')
    have j': "j' < length pc" "k < length (snd (pc ! j'))" using Suc Cons.prems by simp_all
    note ih = Cons.IH[OF j']
    have t: "pcss_count (take j (entry # pc)) = length (snd entry) + pcss_count (take j' pc)"
      using Suc by (simp add: pcss_count_Cons)
    have "pcss_keys (entry # pc) ! (length (snd entry) + (pcss_count (take j' pc) + k))
            = pcss_keys pc ! (pcss_count (take j' pc) + k)"
      by (simp add: pcss_keys_Cons nth_append)
    then show ?thesis using ih t Suc by (simp add: pcss_count_Cons add.assoc)
  qed
qed

lemma blocks_nth:
  "j < length pc \<Longrightarrow>
     blocks pc i ! j =
       (fst (pc ! j), i + pcss_count (take j pc),
        i + pcss_count (take j pc) + length (snd (pc ! j)))"
proof (induction pc arbitrary: i j)
  case Nil
  then show ?case by simp
next
  case (Cons entry pc)
  show ?case
  proof (cases j)
    case 0
    then show ?thesis by (simp add: pcss_count_def)
  next
    case (Suc j')
    have j': "j' < length pc" using Suc Cons.prems by simp
    show ?thesis using Cons.IH[OF j', of "i + length (snd entry)"] Suc
      by (simp add: pcss_count_Cons add.assoc)
  qed
qed

text \<open>
  Claim C1. When \<open>ProcessLoadedTrees\<close> returns, it has stored the counter of the
  loaded topologies, and with \<open>R\<close> the number of entries of the rootsplit counter of
  that topology counter, \<open>P\<close> the number of parent-child pairs of its PCSS counter and
  \<open>M = R + P\<close>: the keys of the indexer are the rootsplits followed by the PCSS keys,
  parent by parent, they are pairwise distinct, and their indices are \<open>0, 1, ..., M - 1\<close>
  in this order, so that the indexer is a bijection from the keys onto \<open>[0, M)\<close>; the
  indices below \<open>R\<close> are those of the rootsplits, in the order of \<open>rootsplits_\<close>; the
  parent-to-range map has one entry per parent, the \<open>k\<close>-th child of a parent sits at
  the \<open>k\<close>-th index of the range of the parent, and the ranges, put one after the
  other, are exactly \<open>R, ..., M - 1\<close>; and the parameter vector consists of \<open>M\<close> ones.
\<close>

theorem ProcessLoadedTrees_indexer:
  assumes "ProcessLoadedTrees s = Inr s'"
  shows "\<exists>rootsplit_counter pcss_counter.
     topology_counter s' = TopologyCounter (map Topology (trees (tree_collection s))) \<and>
     RootsplitCounterOf (topology_counter s') = Inr rootsplit_counter \<and>
     PCSSCounterOf (topology_counter s') = Inr pcss_counter \<and>
     (let R = length rootsplit_counter;
          P = pcss_count pcss_counter;
          M = R + P;
          keys = map fst rootsplit_counter @ pcss_keys pcss_counter
      in map fst (indexer s') = keys \<and> distinct keys \<and>
         map snd (indexer s') = [0 ..< M] \<and>
         bij_betw (\<lambda>key. the (map_of (indexer s') key)) (set keys) {0 ..< M} \<and>
         rootsplits s' = map fst rootsplit_counter \<and>
         (\<forall>i < R. map_of (indexer s') (rootsplits s' ! i) = Some i) \<and>
         map fst (parent_to_range s') = map fst pcss_counter \<and>
         distinct (map fst pcss_counter) \<and>
         (\<forall>j < length pcss_counter. \<forall>k < length (snd (pcss_counter ! j)).
            map_of (indexer s') (fst (pcss_counter ! j) @ fst (snd (pcss_counter ! j) ! k))
              = Some (fst (snd (parent_to_range s' ! j)) + k) \<and>
            fst (snd (parent_to_range s' ! j)) + length (snd (pcss_counter ! j))
              = snd (snd (parent_to_range s' ! j))) \<and>
         concat (map (\<lambda>entry. [fst (snd entry) ..< snd (snd entry)]) (parent_to_range s'))
           = [R ..< M] \<and>
         sbn_parameters s' = replicate M 1)"
proof -
  define s1 where
    "s1 = (ClearTreeCollectionAssociatedState s)
            \<lparr>topology_counter := TopologyCounter (map Topology (trees (tree_collection s)))\<rparr>"
  have tc1: "tree_collection (ClearTreeCollectionAssociatedState s) = tree_collection s"
    by (simp add: ClearTreeCollectionAssociatedState_def)
  from assms obtain rc pc s2 where
    rc: "RootsplitCounterOf (topology_counter s1) = Inr rc"
    and pc: "PCSSCounterOf (topology_counter s1) = Inr pc"
    and b: "BuildIndexer rc pc s1 = Inr s2"
    and s': "s' = s2\<lparr>taxon_names := TaxonNames (tree_collection s2)\<rparr>"
    unfolding ProcessLoadedTrees_def Let_def tc1 s1_def[symmetric]
    by (auto simp: then_do_Inr)
  have e: "indexer s1 = []" "rootsplits s1 = []" "parent_to_range s1 = []"
    by (simp_all add: s1_def ClearTreeCollectionAssociatedState_def)
  have t1: "topology_counter s1 = TopologyCounter (map Topology (trees (tree_collection s)))"
    by (simp add: s1_def)
  note r = BuildIndexer_result[OF b e]
  define R where "R = length rc"
  define M where "M = length rc + pcss_count pc"
  define keys where "keys = map fst rc @ pcss_keys pc"
  have f: "indexer s' = indexer s2" "rootsplits s' = rootsplits s2"
    "parent_to_range s' = parent_to_range s2" "sbn_parameters s' = sbn_parameters s2"
    "topology_counter s' = topology_counter s2"
    by (simp_all add: s')
  have k1: "map fst (indexer s') = keys" unfolding f keys_def using r by blast
  have k2: "map snd (indexer s') = [0 ..< M]" unfolding f M_def using r by blast
  have k3: "distinct (map fst (indexer s'))" unfolding f using r by blast
  have k4: "rootsplits s' = map fst rc" unfolding f using r by blast
  have k5: "parent_to_range s' = blocks pc R" unfolding f R_def using r by blast
  have k6: "distinct (map fst (parent_to_range s'))" unfolding f using r by blast
  have k7: "sbn_parameters s' = replicate M 1" unfolding f M_def using r by blast
  have k8: "topology_counter s' = topology_counter s1" unfolding f using r by blast
  have len: "length (indexer s') = M"
    using k2 by (metis length_map length_upt minus_nat.diff_0)
  have k2': "map snd (indexer s') = [0 ..< length (indexer s')]" using k2 len by simp
  have lk: "length keys = M" using k1 len by (metis length_map)
  have dk: "distinct keys" using k3 k1 by simp
  have bij: "bij_betw (\<lambda>key. the (map_of (indexer s') key)) (set keys) {0 ..< M}"
    using indexer_bijection[OF k3 k2'] unfolding k1 len .
  have look: "map_of (indexer s') (keys ! n) = Some n" if "n < M" for n
    using indexer_lookup[OF k3 k2'] that unfolding k1 len by simp
  have roots: "\<forall>i < R. map_of (indexer s') (rootsplits s' ! i) = Some i"
  proof (intro allI impI)
    fix i assume i: "i < R"
    have "keys ! i = map fst rc ! i" using i by (simp add: keys_def R_def nth_append)
    moreover have "i < M" using i by (simp add: R_def M_def)
    ultimately show "map_of (indexer s') (rootsplits s' ! i) = Some i"
      using look[of i] k4 by simp
  qed
  have p1: "map fst (parent_to_range s') = map fst pc" unfolding k5 by (rule blocks_keys)
  have p2: "distinct (map fst pc)" using k6 p1 by simp
  have p3: "concat (map (\<lambda>entry. [fst (snd entry) ..< snd (snd entry)]) (parent_to_range s'))
              = [R ..< M]"
    unfolding k5 blocks_ranges by (simp add: R_def M_def)
  have p4: "\<forall>j < length pc. \<forall>k < length (snd (pc ! j)).
            map_of (indexer s') (fst (pc ! j) @ fst (snd (pc ! j) ! k))
              = Some (fst (snd (parent_to_range s' ! j)) + k) \<and>
            fst (snd (parent_to_range s' ! j)) + length (snd (pc ! j))
              = snd (snd (parent_to_range s' ! j))"
  proof (intro allI impI)
    fix j k assume j: "j < length pc" and k: "k < length (snd (pc ! j))"
    note pos = pcss_key_position[OF j k]
    have bn: "parent_to_range s' ! j =
                (fst (pc ! j), R + pcss_count (take j pc),
                 R + pcss_count (take j pc) + length (snd (pc ! j)))"
      unfolding k5 by (rule blocks_nth[OF j])
    have "keys ! (R + (pcss_count (take j pc) + k)) = pcss_keys pc ! (pcss_count (take j pc) + k)"
      by (simp add: keys_def R_def nth_append)
    then have kk: "keys ! (R + (pcss_count (take j pc) + k))
                     = fst (pc ! j) @ fst (snd (pc ! j) ! k)"
      using pos by simp
    have "R + (pcss_count (take j pc) + k) < M" using pos by (simp add: R_def M_def)
    from look[OF this] have "map_of (indexer s') (fst (pc ! j) @ fst (snd (pc ! j) ! k))
            = Some (R + (pcss_count (take j pc) + k))"
      unfolding kk .
    then show "map_of (indexer s') (fst (pc ! j) @ fst (snd (pc ! j) ! k))
              = Some (fst (snd (parent_to_range s' ! j)) + k) \<and>
            fst (snd (parent_to_range s' ! j)) + length (snd (pc ! j))
              = snd (snd (parent_to_range s' ! j))"
      unfolding bn by (simp add: add.assoc)
  qed
  have tc: "topology_counter s' = TopologyCounter (map Topology (trees (tree_collection s)))"
    using k8 t1 by simp
  have rc': "RootsplitCounterOf (topology_counter s') = Inr rc" using rc k8 by simp
  have pc': "PCSSCounterOf (topology_counter s') = Inr pc" using pc k8 by simp
  have layout: "(let R = length rc; P = pcss_count pc; M = R + P;
          keys = map fst rc @ pcss_keys pc
      in map fst (indexer s') = keys \<and> distinct keys \<and>
         map snd (indexer s') = [0 ..< M] \<and>
         bij_betw (\<lambda>key. the (map_of (indexer s') key)) (set keys) {0 ..< M} \<and>
         rootsplits s' = map fst rc \<and>
         (\<forall>i < R. map_of (indexer s') (rootsplits s' ! i) = Some i) \<and>
         map fst (parent_to_range s') = map fst pc \<and>
         distinct (map fst pc) \<and>
         (\<forall>j < length pc. \<forall>k < length (snd (pc ! j)).
            map_of (indexer s') (fst (pc ! j) @ fst (snd (pc ! j) ! k))
              = Some (fst (snd (parent_to_range s' ! j)) + k) \<and>
            fst (snd (parent_to_range s' ! j)) + length (snd (pc ! j))
              = snd (snd (parent_to_range s' ! j))) \<and>
         concat (map (\<lambda>entry. [fst (snd entry) ..< snd (snd entry)]) (parent_to_range s'))
           = [R ..< M] \<and>
         sbn_parameters s' = replicate M 1)"
    unfolding Let_def unfolding M_def[symmetric] keys_def[symmetric] unfolding R_def[symmetric]
    by (intro conjI) (rule k1, rule dk, rule k2, rule bij, rule k4, rule roots, rule p1,
        rule p2, rule p4, rule p3, rule k7)
  show ?thesis
    by (intro exI[of _ rc] exI[of _ pc] conjI) (rule tc, rule rc', rule pc', rule layout)
qed

theorem ProcessLoadedTrees_indexer_witness:
  "ProcessLoadedTrees four_taxon_loaded = Inr four_taxon_instance \<and>
   (\<exists>rootsplit_counter pcss_counter.
      RootsplitCounterOf (topology_counter four_taxon_instance) = Inr rootsplit_counter \<and>
      PCSSCounterOf (topology_counter four_taxon_instance) = Inr pcss_counter \<and>
      length rootsplit_counter = 5 \<and> pcss_count pcss_counter = 10 \<and>
      map fst (indexer four_taxon_instance)
        = map fst rootsplit_counter @ pcss_keys pcss_counter \<and>
      map snd (indexer four_taxon_instance) = [0 ..< 15] \<and>
      rootsplits four_taxon_instance = map fst rootsplit_counter \<and>
      map fst (parent_to_range four_taxon_instance) = map fst pcss_counter \<and>
      sbn_parameters four_taxon_instance = replicate 15 1)"
proof -
  from ProcessLoadedTrees_indexer[OF four_taxon_built]
  obtain rc pc where
    rc: "RootsplitCounterOf (topology_counter four_taxon_instance) = Inr rc"
    and pc: "PCSSCounterOf (topology_counter four_taxon_instance) = Inr pc"
    and k: "map fst (indexer four_taxon_instance) = map fst rc @ pcss_keys pc"
    and i: "map snd (indexer four_taxon_instance) = [0 ..< length rc + pcss_count pc]"
    and r: "rootsplits four_taxon_instance = map fst rc"
    and p: "map fst (parent_to_range four_taxon_instance) = map fst pc"
    and w: "sbn_parameters four_taxon_instance = replicate (length rc + pcss_count pc) 1"
    unfolding Let_def by blast
  have "length (rootsplits four_taxon_instance) = 5"
    by (simp add: four_taxon_instance_def)
  then have lr: "length rc = 5" unfolding r by simp
  have "length (sbn_parameters four_taxon_instance) = 15"
    by (simp add: four_taxon_instance_def)
  then have m: "length rc + pcss_count pc = 15" unfolding w by simp
  then have lp: "pcss_count pc = 10" using lr by simp
  have i': "map snd (indexer four_taxon_instance) = [0 ..< 15]" using i unfolding m .
  have w': "sbn_parameters four_taxon_instance = replicate 15 1" using w unfolding m .
  show ?thesis
    by (intro conjI exI[of _ rc] exI[of _ pc])
       (rule four_taxon_built, rule rc, rule pc, rule lr, rule lp, rule k, rule i', rule r,
        rule p, rule w')
qed

section \<open>Clades as bitsets\<close>

lemma length_bits: "length (bits n S) = n"
  by (simp add: bits_def)

lemma length_clade: "length (clade n v) = n"
  by (simp add: clade_def length_bits)



lemma or_bits: "Bitset_or (bits n S) (bits n T) = bits n (S \<union> T)"
  by (simp add: bits_def Bitset_or_def list_eq_iff_nth_eq)

lemma zeros_bits: "Bitset_zeros n = bits n {}"
  by (simp add: bits_def Bitset_zeros_def list_eq_iff_nth_eq)

lemma set_bits: "i < n \<Longrightarrow> Bitset_set (bits n S) i = Inr (bits n (insert i S))"
  by (auto simp: bits_def Bitset_set_def list_eq_iff_nth_eq nth_list_update)





lemma CopyFrom_twice:
  assumes "length a = n" "length b = n"
  shows "CopyFrom (CopyFrom (Bitset_zeros (2 * n)) a 0 fa) b n fb
           = (if fa then Bitset_flip a else a) @ (if fb then Bitset_flip b else b)"
  using assms by (simp add: CopyFrom_def Bitset_zeros_def Bitset_flip_def)

section \<open>Nodes of a topology\<close>

lemma leaf_ids_nonempty: "leaf_ids v \<noteq> []"
proof (induction v)
  case (Node cs i t h)
  show ?case
  proof (cases cs)
    case Nil
    then show ?thesis by simp
  next
    case (Cons c cs')
    then have "leaf_ids c \<noteq> []" using Node.IH by simp
    then show ?thesis using Cons by simp
  qed
qed

lemma PreOrder_self: "v \<in> set (PreOrder v)"
  by (cases v) simp


lemma PreOrder_bifurcating:
  "u \<in> set (PreOrder v) \<Longrightarrow> bifurcating v \<Longrightarrow> bifurcating u"
proof (induction v)
  case (Node cs i t h)
  show ?case
  proof (cases "u = Node cs i t h")
    case True
    then show ?thesis using Node.prems by simp
  next
    case False
    then obtain c where c: "c \<in> set cs" "u \<in> set (PreOrder c)"
      using Node.prems by auto
    moreover have "bifurcating c" using c Node.prems(2) by auto
    ultimately show ?thesis using Node.IH by blast
  qed
qed

lemma mset_PostOrder: "mset (PostOrder v) = mset (PreOrder v)"
proof (induction v)
  case (Node cs i t h)
  have "map (\<lambda>c. mset (PostOrder c)) cs = map (\<lambda>c. mset (PreOrder c)) cs"
    using Node.IH by simp
  then have "mset (concat (map PostOrder cs)) = mset (concat (map PreOrder cs))"
    by (simp only: mset_concat map_map comp_def)
  then show ?case by simp
qed

lemma set_PostOrder: "set (PostOrder v) = set (PreOrder v)"
  using mset_PostOrder by (metis set_mset_mset)

section \<open>The tag-to-bitset map\<close>

lemma for_each_append:
  "for_each body (xs @ ys) st = then_do (for_each body xs st) (for_each body ys)"
  by (induction xs arbitrary: st) (auto split: sum.splits)

lemma map_at_distinct:
  assumes "distinct (map fst m)" "(k, v) \<in> set m"
  shows "map_at m k = Inr v"
  using assms by (simp add: map_at_def)

lemma union_children:
  assumes "\<forall>c \<in> set cs. map_at m (Tag c) = Inr (clade n c)"
  shows "for_each (\<lambda>child x. then_do (map_at m (Tag child)) (\<lambda>y. Inr (Bitset_or x y)))
           cs (bits n S) = Inr (bits n (S \<union> set (concat (map leaf_ids cs))))"
  using assms
proof (induction cs arbitrary: S)
  case Nil
  then show ?case by simp
next
  case (Cons c cs)
  have c: "map_at m (Tag c) = Inr (bits n (set (leaf_ids c)))"
    using Cons.prems by (simp add: clade_def)
  have "for_each (\<lambda>child x. then_do (map_at m (Tag child)) (\<lambda>y. Inr (Bitset_or x y)))
           cs (bits n (S \<union> set (leaf_ids c)))
        = Inr (bits n ((S \<union> set (leaf_ids c)) \<union> set (concat (map leaf_ids cs))))"
    using Cons.IH[of "S \<union> set (leaf_ids c)"] Cons.prems by simp
  then show ?case by (simp add: c or_bits Un_assoc)
qed

lemma TagBitsetMapOf_visit_node:
  assumes d: "distinct (map fst m)"
    and t: "Tag v \<notin> set (map fst m)"
    and cs: "\<forall>c \<in> set (Children v). (Tag c, clade n c) \<in> set m"
    and r: "\<forall>i \<in> set (leaf_ids v). i < n"
  shows "TagBitsetMapOf_visit n v m = Inr (m @ [(Tag v, clade n v)])"
proof (cases v)
  case (Node ch i tg h)
  show ?thesis
  proof (cases "ch = []")
    case True
    have "fst tg < n" using r Node True by simp
    then have "Bitset_set (Bitset_zeros n) (MaxLeafID v) = Inr (clade n v)"
      using Node True by (simp add: zeros_bits set_bits clade_def MaxLeafID_def)
    then show ?thesis using t Node True
      by (simp add: TagBitsetMapOf_visit_def IsLeaf_def SafeInsert_def)
  next
    case False
    have "\<forall>c \<in> set ch. map_at m (Tag c) = Inr (clade n c)"
      using cs Node map_at_distinct[OF d] by simp
    from union_children[OF this, of "{}"]
    have "for_each (\<lambda>child x. then_do (map_at m (Tag child)) (\<lambda>y. Inr (Bitset_or x y)))
            (Children v) (Bitset_zeros n) = Inr (clade n v)"
      using Node False by (simp add: zeros_bits clade_def)
    then show ?thesis using t Node False
      by (simp add: TagBitsetMapOf_visit_def IsLeaf_def SafeInsert_def)
  qed
qed

lemma PostOrder_last: "(Tag v, clade n v) \<in> set (map (\<lambda>u. (Tag u, clade n u)) (PostOrder v))"
  by (cases v) simp

lemma TagBitsetMapOf_loop:
  assumes "distinct (map fst m0 @ map Tag (PostOrder v))"
    and "\<forall>i \<in> set (leaf_ids v). i < n"
  shows "for_each (TagBitsetMapOf_visit n) (PostOrder v) m0
           = Inr (m0 @ map (\<lambda>u. (Tag u, clade n u)) (PostOrder v))"
  using assms
proof (induction v arbitrary: m0)
  case (Node cs i t h)
  let ?entry = "\<lambda>u. (Tag u, clade n u)"
  let ?v = "Node cs i t h"
  have below: "\<forall>c \<in> set cs. \<forall>i \<in> set (leaf_ids c). i < n"
    using Node.prems(2) by (auto split: if_splits)
  have kids: "distinct (map fst m1 @ map Tag (concat (map PostOrder ds))) \<Longrightarrow>
              set ds \<subseteq> set cs \<Longrightarrow>
              for_each (TagBitsetMapOf_visit n) (concat (map PostOrder ds)) m1
                = Inr (m1 @ map ?entry (concat (map PostOrder ds)))" for ds m1
  proof (induction ds arbitrary: m1)
    case Nil
    then show ?case by simp
  next
    case (Cons d ds)
    have d: "d \<in> set cs" using Cons.prems(2) by simp
    have d1: "distinct (map fst m1 @ map Tag (PostOrder d))"
      using Cons.prems(1) by auto
    have s1: "for_each (TagBitsetMapOf_visit n) (PostOrder d) m1
                = Inr (m1 @ map ?entry (PostOrder d))"
      using Node.IH[OF d d1] below d by blast
    have fst_entry: "map fst (map ?entry xs) = map Tag xs" for xs
      by (simp add: comp_def)
    have d2: "distinct (map fst (m1 @ map ?entry (PostOrder d))
                 @ map Tag (concat (map PostOrder ds)))"
      using Cons.prems(1) by (auto simp: comp_def)
    have s2: "for_each (TagBitsetMapOf_visit n) (concat (map PostOrder ds))
                (m1 @ map ?entry (PostOrder d))
              = Inr ((m1 @ map ?entry (PostOrder d)) @ map ?entry (concat (map PostOrder ds)))"
      using Cons.IH[OF d2] Cons.prems(2) by simp
    show ?case by (simp add: for_each_append s1 s2)
  qed
  have p: "PostOrder ?v = concat (map PostOrder cs) @ [?v]" by simp
  define m1 where "m1 = m0 @ map ?entry (concat (map PostOrder cs))"
  have dk: "distinct (map fst m0 @ map Tag (concat (map PostOrder cs)))"
    using Node.prems(1) by simp
  have s1: "for_each (TagBitsetMapOf_visit n) (concat (map PostOrder cs)) m0 = Inr m1"
    unfolding m1_def using kids[OF dk] by simp
  have f1: "map fst m1 = map fst m0 @ map Tag (concat (map PostOrder cs))"
    by (simp add: m1_def comp_def)
  have dm: "distinct (map fst m1)" unfolding f1 by (rule dk)
  have tv: "Tag ?v \<notin> set (map fst m1)" unfolding f1 using Node.prems(1) by auto
  have ch: "\<forall>c \<in> set (Children ?v). (Tag c, clade n c) \<in> set m1"
  proof
    fix c assume "c \<in> set (Children ?v)"
    then have c: "c \<in> set cs" by simp
    have "(Tag c, clade n c) \<in> set (map ?entry (PostOrder c))" by (rule PostOrder_last)
    then show "(Tag c, clade n c) \<in> set m1" using c by (auto simp: m1_def)
  qed
  have s2: "TagBitsetMapOf_visit n ?v m1 = Inr (m1 @ [(Tag ?v, clade n ?v)])"
    by (rule TagBitsetMapOf_visit_node[OF dm tv ch Node.prems(2)])
  have "for_each (TagBitsetMapOf_visit n) (PostOrder ?v) m0
          = then_do (Inr m1) (for_each (TagBitsetMapOf_visit n) [?v])"
    unfolding p for_each_append s1 ..
  also have "\<dots> = Inr (m1 @ [(Tag ?v, clade n ?v)])"
    using s2 by simp
  finally show ?case unfolding p by (simp add: m1_def)
qed

lemma TagBitsetMapOf_result:
  assumes "distinct (map Tag (PreOrder t))" "\<forall>i \<in> set (leaf_ids t). i < LeafCount t"
  shows "TagBitsetMapOf t = Inr (map (\<lambda>u. (Tag u, clade (LeafCount t) u)) (PostOrder t))"
proof -
  have "mset (map Tag (PostOrder t)) = mset (map Tag (PreOrder t))"
    by (simp add: mset_PostOrder)
  then have "distinct (map Tag (PostOrder t))"
    using assms(1) by (metis distinct_count_atmost_1 mset_eq_imp_distinct_iff)
  then have "distinct (map fst ([] :: TagBitsetMap) @ map Tag (PostOrder t))" by simp
  from TagBitsetMapOf_loop[OF this assms(2)] show ?thesis
    by (simp add: TagBitsetMapOf_def)
qed

text \<open>Every node of the topology finds its clade under its tag.\<close>

lemma TagBitsetMapOf_lookup:
  assumes "distinct (map Tag (PreOrder t))" "\<forall>i \<in> set (leaf_ids t). i < LeafCount t"
    and "TagBitsetMapOf t = Inr m" "u \<in> set (PreOrder t)"
  shows "map_at m (Tag u) = Inr (clade (LeafCount t) u)"
proof -
  have m: "m = map (\<lambda>u. (Tag u, clade (LeafCount t) u)) (PostOrder t)"
    using TagBitsetMapOf_result[OF assms(1,2)] assms(3) by simp
  have "mset (map Tag (PostOrder t)) = mset (map Tag (PreOrder t))"
    by (simp add: mset_PostOrder)
  then have "distinct (map Tag (PostOrder t))"
    using assms(1) by (metis distinct_count_atmost_1 mset_eq_imp_distinct_iff)
  then have d: "distinct (map fst m)" by (simp add: m comp_def)
  have "u \<in> set (PostOrder t)" using assms(4) by (simp add: set_PostOrder)
  then have "(Tag u, clade (LeafCount t) u) \<in> set m" by (auto simp: m)
  then show ?thesis by (rule map_at_distinct[OF d])
qed

section \<open>Every edge has its own rootsplit\<close>





lemma bifurcating_cases:
  assumes "bifurcating v"
  obtains (leaf) i t h where "v = Node [] i t h"
  | (inner) a b i t h where "v = Node [a, b] i t h" "bifurcating a" "bifurcating b"
proof (cases v)
  case (Node cs i t h)
  show ?thesis
  proof (cases "cs = []")
    case True
    then show ?thesis using Node leaf by simp
  next
    case False
    then have l: "length cs = 2" and b: "\<forall>c \<in> set cs. bifurcating c"
      using assms Node by simp_all
    from l obtain a b where cs: "cs = [a, b]"
      by (cases cs; cases "tl cs"; cases "tl (tl cs)") auto
    then show ?thesis using Node inner b by simp
  qed
qed


lemma three_children:
  assumes "length (Children t) = 3"
  obtains c0 c1 c2 where "Children t = [c0, c1, c2]"
  using assms
  by (cases "Children t"; cases "tl (Children t)"; cases "tl (tl (Children t))";
      cases "tl (tl (tl (Children t)))") auto

lemma unrooted_topology_children:
  assumes "unrooted_topology t"
  obtains c0 c1 c2 i tg h where "t = Node [c0, c1, c2] i tg h"
    and "bifurcating c0" "bifurcating c1" "bifurcating c2"
    and "distinct (leaf_ids c0)" "distinct (leaf_ids c1)" "distinct (leaf_ids c2)"
    and "set (leaf_ids c0) \<inter> set (leaf_ids c1) = {}"
    and "set (leaf_ids c0) \<inter> set (leaf_ids c2) = {}"
    and "set (leaf_ids c1) \<inter> set (leaf_ids c2) = {}"
    and "\<forall>i \<in> set (leaf_ids c0). i < LeafCount t"
    and "\<forall>i \<in> set (leaf_ids c1). i < LeafCount t"
    and "\<forall>i \<in> set (leaf_ids c2). i < LeafCount t"
proof -
  from assms have "length (Children t) = 3" by (simp add: unrooted_topology_def)
  then obtain c0 c1 c2 where c: "Children t = [c0, c1, c2]" by (rule three_children)
  obtain cs i tg h where t: "t = Node cs i tg h" by (cases t)
  then have t': "t = Node [c0, c1, c2] i tg h" using c by simp
  have l: "leaf_ids t = leaf_ids c0 @ leaf_ids c1 @ leaf_ids c2" by (simp add: t')
  have d: "distinct (leaf_ids c0 @ leaf_ids c1 @ leaf_ids c2)"
    using assms unfolding unrooted_topology_def l by blast
  have r: "\<forall>i \<in> set (leaf_ids c0 @ leaf_ids c1 @ leaf_ids c2). i < LeafCount t"
    using assms unfolding unrooted_topology_def l by blast
  have b: "\<forall>c \<in> set [c0, c1, c2]. bifurcating c"
    using assms unfolding unrooted_topology_def c by blast
  show ?thesis
  proof (rule that[OF t'])
    show "bifurcating c0" "bifurcating c1" "bifurcating c2" using b by simp_all
    show "distinct (leaf_ids c0)" "distinct (leaf_ids c1)" "distinct (leaf_ids c2)"
      using d by simp_all
    show "set (leaf_ids c0) \<inter> set (leaf_ids c1) = {}"
      "set (leaf_ids c0) \<inter> set (leaf_ids c2) = {}"
      "set (leaf_ids c1) \<inter> set (leaf_ids c2) = {}"
      using d by auto
    show "\<forall>i \<in> set (leaf_ids c0). i < LeafCount t"
      "\<forall>i \<in> set (leaf_ids c1). i < LeafCount t"
      "\<forall>i \<in> set (leaf_ids c2). i < LeafCount t"
      using r by simp_all
  qed
qed


section \<open>Counting rootsplits\<close>








lemma edges_in_topology: "v \<in> set (edges t) \<Longrightarrow> v \<in> set (PreOrder t)"
  by (cases t) (auto simp: edges_def)



section \<open>The calls of \<open>PCSSPreOrder\<close>\<close>

lemma then_do_return: "then_do r Inr = r"
  by (cases r) simp_all

lemma PCSS_f_root_calls:
  assumes "bifurcating node2"
  shows "PCSS_f_root f node0 node1 node2 st = for_each f (root_group node0 node1 node2) st"
  using assms
proof (cases rule: bifurcating_cases)
  case (leaf i t h)
  then show ?thesis
    by (simp add: PCSS_f_root_def root_group_def IsLeaf_def then_do_return cong: sum.case_cong)
next
  case (inner a b i t h)
  then show ?thesis
    by (simp add: PCSS_f_root_def root_group_def IsLeaf_def then_do_return cong: sum.case_cong)
qed

lemma PCSS_f_internal_calls:
  assumes "bifurcating node"
  shows "PCSS_f_internal f parent sister node st
           = for_each f (internal_group parent sister node) st"
  using assms
proof (cases rule: bifurcating_cases)
  case (leaf i t h)
  then show ?thesis
    by (simp add: PCSS_f_internal_def internal_group_def IsLeaf_def then_do_return cong: sum.case_cong)
next
  case (inner a b i t h)
  then show ?thesis
    by (simp add: PCSS_f_internal_def internal_group_def IsLeaf_def then_do_return cong: sum.case_cong)
qed

lemma TriplePreOrderInternal_calls:
  assumes "bifurcating v"
  shows "TriplePreOrderInternal (PCSS_f_internal f) v st = for_each f (internal_calls v) st"
  using assms
proof (induction v arbitrary: st)
  case (Node cs i t h)
  from Node.prems show ?case
  proof (cases rule: bifurcating_cases)
    case (leaf i' t' h')
    then show ?thesis by simp
  next
    case (inner a b i' t' h')
    then have cs: "cs = [a, b]" by simp
    have ia: "TriplePreOrderInternal (PCSS_f_internal f) a s = for_each f (internal_calls a) s"
      for s using Node.IH[of a] inner(2) cs by simp
    have ib: "TriplePreOrderInternal (PCSS_f_internal f) b s = for_each f (internal_calls b) s"
      for s using Node.IH[of b] inner(3) cs by simp
    have ga: "PCSS_f_internal f (Node [a, b] i t h) b a s
                = for_each f (internal_group (Node [a, b] i t h) b a) s" for s
      by (rule PCSS_f_internal_calls[OF inner(2)])
    have gb: "PCSS_f_internal f (Node [a, b] i t h) a b s
                = for_each f (internal_group (Node [a, b] i t h) a b) s" for s
      by (rule PCSS_f_internal_calls[OF inner(3)])
    show ?thesis unfolding cs
      by (simp add: ia ib ga gb for_each_append then_do_return cong: sum.case_cong)
  qed
qed

lemma PCSSPreOrder_calls:
  assumes "t = Node [c0, c1, c2] i tg h" "bifurcating c0" "bifurcating c1" "bifurcating c2"
  shows "PCSSPreOrder f t st = for_each f (topology_calls t) st"
  unfolding assms(1) PCSSPreOrder_def topology_calls_def
  by (simp add: PCSS_f_root_calls[OF assms(2)] PCSS_f_root_calls[OF assms(3)]
        PCSS_f_root_calls[OF assms(4)] TriplePreOrderInternal_calls[OF assms(2)]
        TriplePreOrderInternal_calls[OF assms(3)] TriplePreOrderInternal_calls[OF assms(4)]
        for_each_append then_do_return cong: sum.case_cong)

lemma for_each_log: "for_each (\<lambda>call log. Inr (log @ [call])) xs st = Inr (st @ xs)"
  by (induction xs arbitrary: st) simp_all

lemma PCSS_calls_result:
  assumes "unrooted_topology t"
  shows "PCSS_calls t = Inr (topology_calls t)"
  using assms
proof (cases rule: unrooted_topology_children)
  case (1 c0 c1 c2 i tg h)
  show ?thesis unfolding PCSS_calls_def
    by (simp add: PCSSPreOrder_calls[OF 1(1,2,3,4)] for_each_log)
qed


section \<open>Every call of \<open>PCSSPreOrder\<close> has its own parent subsplit\<close>












lemma PreOrder_unfold: "PreOrder u = u # concat (map PreOrder (Children u))"
  by (cases u) simp



lemma distinct_fst_map:
  "distinct (map (\<lambda>x. fst (f x)) xs) \<Longrightarrow> distinct (map f xs)"
  by (induction xs) auto



section \<open>Counting PCSSs\<close>

lemma group_nodes:
  assumes "call \<in> set (internal_group parent sister node) \<or>
           call \<in> set (root_group parent sister node)"
  shows "{sister_node call, focal_node call, child0_node call, child1_node call}
           \<subseteq> {parent, sister, node} \<union> set (Children node)"
proof (cases "\<exists>a b. Children node = [a, b]")
  case True
  then obtain a b where c: "Children node = [a, b]" by blast
  show ?thesis using assms by (auto simp: internal_group_def root_group_def c)
next
  case False
  then have e: "(case Children node of [c0, c1] \<Rightarrow> f c0 c1 | _ \<Rightarrow> []) = []"
    for f :: "Node \<Rightarrow> Node \<Rightarrow> pcss_call list"
    by (auto split: list.splits)
  show ?thesis using assms by (auto simp: internal_group_def root_group_def e)
qed

lemma child_in_PreOrder: "c \<in> set (Children v) \<Longrightarrow> u \<in> set (PreOrder c) \<Longrightarrow> u \<in> set (PreOrder v)"
  by (cases v) auto

lemma internal_calls_nodes:
  "call \<in> set (internal_calls v) \<Longrightarrow>
     {sister_node call, focal_node call, child0_node call, child1_node call}
       \<subseteq> set (PreOrder v)"
proof (induction v)
  case (Node cs i t h)
  let ?v = "Node cs i t h"
  show ?case
  proof (cases "\<exists>a b. cs = [a, b]")
    case False
    then have "internal_calls ?v = []" by (auto split: list.splits)
    then show ?thesis using Node.prems by simp
  next
    case True
    then obtain a b where cs: "cs = [a, b]" by blast
    have ic: "internal_calls ?v
                = internal_group ?v b a @ internal_calls a @
                  internal_group ?v a b @ internal_calls b"
      by (simp add: cs)
    have va: "set (PreOrder a) \<subseteq> set (PreOrder ?v)" and vb: "set (PreOrder b) \<subseteq> set (PreOrder ?v)"
      by (auto simp: cs)
    have ca: "set (Children a) \<subseteq> set (PreOrder a)"
      using child_in_PreOrder[of _ a] PreOrder_self by blast
    have cb: "set (Children b) \<subseteq> set (PreOrder b)"
      using child_in_PreOrder[of _ b] PreOrder_self by blast
    have base: "{?v, a, b} \<subseteq> set (PreOrder ?v)"
      using PreOrder_self[of a] PreOrder_self[of b] va vb by auto
    from Node.prems[unfolded ic] consider
        "call \<in> set (internal_group ?v b a)"
      | "call \<in> set (internal_calls a)"
      | "call \<in> set (internal_group ?v a b)"
      | "call \<in> set (internal_calls b)"
      by auto
    then show ?thesis
    proof cases
      case 1
      from group_nodes[of call ?v b a] 1
      have "{sister_node call, focal_node call, child0_node call, child1_node call}
              \<subseteq> {?v, b, a} \<union> set (Children a)" by blast
      then show ?thesis using base ca va by blast
    next
      case 2
      then have "{sister_node call, focal_node call, child0_node call, child1_node call}
              \<subseteq> set (PreOrder a)" using Node.IH[of a] cs by simp
      then show ?thesis using va by blast
    next
      case 3
      from group_nodes[of call ?v a b] 3
      have "{sister_node call, focal_node call, child0_node call, child1_node call}
              \<subseteq> {?v, a, b} \<union> set (Children b)" by blast
      then show ?thesis using base cb vb by blast
    next
      case 4
      then have "{sister_node call, focal_node call, child0_node call, child1_node call}
              \<subseteq> set (PreOrder b)" using Node.IH[of b] cs by simp
      then show ?thesis using vb by blast
    qed
  qed
qed

lemma topology_calls_nodes:
  assumes "call \<in> set (topology_calls t)"
  shows "{sister_node call, focal_node call, child0_node call, child1_node call}
           \<subseteq> set (PreOrder t)"
proof (cases "\<exists>c0 c1 c2. Children t = [c0, c1, c2]")
  case False
  then have "topology_calls t = []" by (auto simp: topology_calls_def split: list.splits)
  then show ?thesis using assms by simp
next
  case True
  then obtain c0 c1 c2 where c: "Children t = [c0, c1, c2]" by blast
  have tc: "topology_calls t
              = root_group c0 c1 c2 @ root_group c1 c2 c0 @ root_group c2 c0 c1 @
                internal_calls c0 @ internal_calls c1 @ internal_calls c2"
    by (simp add: topology_calls_def c)
  have sub: "set (PreOrder ci) \<subseteq> set (PreOrder t)" if "ci \<in> {c0, c1, c2}" for ci
    using child_in_PreOrder[of ci t] that c by auto
  have kids: "set (Children ci) \<subseteq> set (PreOrder ci)" for ci
    using child_in_PreOrder[of _ ci] PreOrder_self by blast
  have base: "{c0, c1, c2} \<subseteq> set (PreOrder t)"
    using sub PreOrder_self by blast
  have grp: "{sister_node call, focal_node call, child0_node call, child1_node call}
               \<subseteq> set (PreOrder t)"
    if "call \<in> set (root_group p s ci)" "{p, s, ci} \<subseteq> {c0, c1, c2}" for p s ci
  proof -
    from group_nodes[of call p s ci] that(1)
    have "{sister_node call, focal_node call, child0_node call, child1_node call}
              \<subseteq> {p, s, ci} \<union> set (Children ci)" by blast
    moreover have "set (Children ci) \<subseteq> set (PreOrder t)"
      using kids[of ci] sub[of ci] that(2) by blast
    ultimately show ?thesis using base that(2) by blast
  qed
  have int: "{sister_node call, focal_node call, child0_node call, child1_node call}
               \<subseteq> set (PreOrder t)"
    if "call \<in> set (internal_calls ci)" "ci \<in> {c0, c1, c2}" for ci
    using internal_calls_nodes[OF that(1)] sub[OF that(2)] by blast
  from assms[unfolded tc] consider
      "call \<in> set (root_group c0 c1 c2)" | "call \<in> set (root_group c1 c2 c0)"
    | "call \<in> set (root_group c2 c0 c1)" | "call \<in> set (internal_calls c0)"
    | "call \<in> set (internal_calls c1)" | "call \<in> set (internal_calls c2)"
    by auto
  then show ?thesis
  proof cases
    case 1 then show ?thesis by (rule grp) simp
  next
    case 2 then show ?thesis by (rule grp) auto
  next
    case 3 then show ?thesis by (rule grp) auto
  next
    case 4 then show ?thesis by (rule int) simp
  next
    case 5 then show ?thesis by (rule int) simp
  next
    case 6 then show ?thesis by (rule int) simp
  qed
qed

lemma PCSS_keys_of_call:
  assumes "\<forall>u \<in> {sister_node call, focal_node call, child0_node call, child1_node call}.
             map_at m (Tag u) = Inr (clade n u)"
  shows "PCSS_parent m n call = Inr (fst (pcss_of_call n call))"
    and "PCSS_child m call = Inr (snd (pcss_of_call n call))"
proof -
  have s: "map_at m (Tag (sister_node call)) = Inr (clade n (sister_node call))"
    and f: "map_at m (Tag (focal_node call)) = Inr (clade n (focal_node call))"
    and c0: "map_at m (Tag (child0_node call)) = Inr (clade n (child0_node call))"
    and c1: "map_at m (Tag (child1_node call)) = Inr (clade n (child1_node call))"
    using assms by simp_all
  show "PCSS_parent m n call = Inr (fst (pcss_of_call n call))"
    unfolding PCSS_parent_def s f
    by (simp add: CopyFrom_twice[OF length_clade length_clade] pcss_of_call_def oriented_def)
  show "PCSS_child m call = Inr (snd (pcss_of_call n call))"
    unfolding PCSS_child_def c0 c1
    by (simp add: pcss_of_call_def oriented_def Let_def)
qed


lemma keys_increment_child: "map fst (increment_child d p ch c) = map fst d"
  by (induction d p ch c rule: increment_child.induct) auto








section \<open>Trees that \<open>Node::Join\<close> builds\<close>

lemma SingletonOption_ones: "SingletonOption x = (case ones x of [i] \<Rightarrow> Some i | _ \<Rightarrow> None)"
  by (simp add: SingletonOption_def ones_def)

lemma SingletonOption_Some: "SingletonOption x = Some i \<Longrightarrow> ones x = [i]"
  by (auto simp: SingletonOption_ones split: list.splits)

lemma SingletonOption_None:
  "SingletonOption x = None \<Longrightarrow> ones x \<noteq> [] \<Longrightarrow> 2 \<le> length (ones x)"
  by (cases "ones x"; cases "tl (ones x)") (auto simp: SingletonOption_ones)

lemma distinct_ones: "distinct (ones x)"
  by (simp add: ones_def)

lemma SplitChunk_rotate:
  assumes "length subsplit = 2 * n"
  shows "SplitChunk (RotateSubsplit subsplit) 1 = SplitChunk subsplit 0"
    and "SplitChunk (RotateSubsplit subsplit) 0 = SplitChunk subsplit 1"
    and "length (RotateSubsplit subsplit) = 2 * n"
  using assms by (simp_all add: RotateSubsplit_def SplitChunk_def Let_def)

lemma tags_ok_tag:
  "tags_ok v \<Longrightarrow> MaxLeafID v = Max (set (leaf_ids v)) \<and> LeafCount v = length (leaf_ids v)"
proof (cases v)
  case (Node cs i t h)
  assume "tags_ok v"
  then have "t = (Max (set (leaf_ids v)), length (leaf_ids v))"
    unfolding Node tags_ok.simps by blast
  then have "fst t = Max (set (leaf_ids v)) \<and> snd t = length (leaf_ids v)"
    by (metis fst_conv snd_conv)
  then show ?thesis by (simp add: MaxLeafID_def LeafCount_def Node del: leaf_ids.simps)
qed

lemma tags_ok_MaxLeafID: "tags_ok v \<Longrightarrow> MaxLeafID v \<in> set (leaf_ids v)"
  using tags_ok_tag[of v] leaf_ids_nonempty[of v] by (metis List.finite_set Max_in set_empty)

lemma tags_ok_Leaf: "tags_ok (Leaf i)" "leaf_ids (Leaf i) = [i]" "bifurcating (Leaf i)"
  by (simp_all add: Leaf_def)

lemma distinct_keys_of_disjoint:
  assumes "distinct (concat (map leaf_ids cs))" "\<forall>c \<in> set cs. g c \<in> set (leaf_ids c)"
  shows "distinct (map g cs)"
  using assms
proof (induction cs)
  case Nil
  then show ?case by simp
next
  case (Cons a cs)
  have "g a \<notin> g ` set cs"
  proof
    assume "g a \<in> g ` set cs"
    then obtain x where x: "x \<in> set cs" "g x = g a" by auto
    have "g x \<in> set (leaf_ids x)" using Cons.prems(2) x(1) by simp
    then have "g a \<in> (\<Union>c \<in> set cs. set (leaf_ids c))" using x by auto
    moreover have "g a \<in> set (leaf_ids a)" using Cons.prems(2) by simp
    ultimately show False using Cons.prems(1) by auto
  qed
  moreover have "distinct (map g cs)" using Cons by simp
  ultimately show ?case by simp
qed

lemma mset_concat_map_perm:
  assumes "mset xs = mset ys"
  shows "mset (concat (map f xs)) = mset (concat (map f ys))"
proof -
  have "mset (concat (map f zs)) = sum_mset (image_mset (\<lambda>z. mset (f z)) (mset zs))" for zs
    by (induction zs) simp_all
  then show ?thesis using assms by simp
qed

lemma sorted_last_greatest:
  "sorted (map f xs) \<Longrightarrow> x \<in> set xs \<Longrightarrow> f x \<le> f (last xs)"
proof (induction xs)
  case Nil
  then show ?case by simp
next
  case (Cons a xs)
  then show ?case by (cases "xs = []") auto
qed

lemma fold_LeafCount:
  "fold (\<lambda>child acc. acc + LeafCount child) cs a = a + sum_list (map LeafCount cs)"
  by (induction cs arbitrary: a) simp_all

lemma Join_result:
  assumes ne: "children \<noteq> []"
    and ok: "\<forall>c \<in> set children. tags_ok c"
    and d: "distinct (concat (map leaf_ids children))"
  shows "\<exists>v. Join children index = Inr v \<and> mset (Children v) = mset children \<and>
           tags_ok v \<and> distinct (leaf_ids v) \<and>
           set (leaf_ids v) = set (concat (map leaf_ids children)) \<and>
           length (leaf_ids v) = length (concat (map leaf_ids children))"
proof -
  let ?sorted = "sort_key MaxLeafID children"
  let ?tag = "(MaxLeafID (last ?sorted),
               fold (\<lambda>child acc. acc + LeafCount child) ?sorted 0)"
  let ?hash = "SORotate (fold (\<lambda>child h. h XOR Hash child) ?sorted 0) 1"
  let ?v = "Node ?sorted index ?tag ?hash"
  have dk: "distinct (map MaxLeafID children)"
    using distinct_keys_of_disjoint[OF d] ok tags_ok_MaxLeafID by blast
  have j: "Join children index = Inr ?v"
    using ne dk by (simp add: Join_def Let_def)
  have ms: "mset ?sorted = mset children" by simp
  have sne: "?sorted \<noteq> []" using ne by (metis ms mset_zero_iff)
  have l: "leaf_ids ?v = concat (map leaf_ids ?sorted)" using sne by simp
  have ml: "mset (leaf_ids ?v) = mset (concat (map leaf_ids children))"
    unfolding l by (rule mset_concat_map_perm[OF ms])
  have dl: "distinct (leaf_ids ?v)" using ml d by (metis mset_eq_imp_distinct_iff)
  have sl: "set (leaf_ids ?v) = set (concat (map leaf_ids children))"
    using ml by (metis set_mset_mset)
  have ll: "length (leaf_ids ?v) = length (concat (map leaf_ids children))"
    using ml by (metis size_mset)
  have oks: "\<forall>c \<in> set ?sorted. tags_ok c" using ok by simp
  have cnt: "fold (\<lambda>child acc. acc + LeafCount child) ?sorted 0 = length (leaf_ids ?v)"
  proof -
    have e: "map LeafCount ?sorted = map (\<lambda>c. length (leaf_ids c)) ?sorted"
      by (rule map_cong[OF refl]) (use oks tags_ok_tag in blast)
    show ?thesis unfolding l unfolding fold_LeafCount e
      by (simp add: length_concat comp_def)
  qed
  have mx: "MaxLeafID (last ?sorted) = Max (set (leaf_ids ?v))"
  proof (rule Max_eqI[symmetric])
    show "finite (set (leaf_ids ?v))" by simp
    have lst: "last ?sorted \<in> set ?sorted" by (rule last_in_set[OF sne])
    then have "MaxLeafID (last ?sorted) \<in> set (leaf_ids (last ?sorted))"
      using oks tags_ok_MaxLeafID by blast
    then show "MaxLeafID (last ?sorted) \<in> set (leaf_ids ?v)"
      unfolding l using lst by auto
    fix y assume "y \<in> set (leaf_ids ?v)"
    then obtain c where c: "c \<in> set ?sorted" "y \<in> set (leaf_ids c)" unfolding l by auto
    have "y \<le> Max (set (leaf_ids c))" using c(2) by simp
    also have "\<dots> = MaxLeafID c" using oks c(1) tags_ok_tag by simp
    also have "\<dots> \<le> MaxLeafID (last ?sorted)"
      by (rule sorted_last_greatest[OF _ c(1)]) simp
    finally show "y \<le> MaxLeafID (last ?sorted)" .
  qed
  have tq: "?tag = (Max (set (leaf_ids ?v)), length (leaf_ids ?v))"
    by (rule arg_cong2[of _ _ _ _ Pair, OF mx cnt])
  have tg: "tags_ok ?v"
    by (rule tags_ok.simps[THEN iffD2, OF conjI[OF oks tq]])
  show ?thesis
    by (intro exI[of _ ?v] conjI) (rule j, simp, rule tg, rule dl, rule sl, rule ll)
qed

section \<open>Sampling succeeds on maps that are fit for it\<close>

lemma bifurcating_iff:
  "bifurcating v \<longleftrightarrow>
     Children v = [] \<or> (length (Children v) = 2 \<and> (\<forall>c \<in> set (Children v). bifurcating c))"
  by (cases v) simp

lemma leaf_ids_children:
  "Children v \<noteq> [] \<Longrightarrow> leaf_ids v = concat (map leaf_ids (Children v))"
  by (cases v) simp

lemma SampleIndex_success:
  assumes contract: "\<forall>weights g. weights \<noteq> [] \<longrightarrow> fst (draw weights g) < length weights"
    and r: "range_start < range_end" "range_end \<le> length (sbn_parameters s)"
  shows "\<exists>idx g'. SampleIndex draw (range_start, range_end) s g = Inr (idx, s, g') \<and>
           range_start \<le> idx \<and> idx < range_end"
proof -
  let ?w = "Exponentiate (ProbabilityNormalizeInLog
              (segment (sbn_parameters s) range_start (range_end - range_start)))"
  have len: "length ?w = range_end - range_start"
    using r by (simp add: weights_length)
  then have ne: "?w \<noteq> []" using r by auto
  have "fst (draw ?w g) < length ?w" by (rule contract[rule_format, OF ne])
  then have "fst (draw ?w g) < range_end - range_start" unfolding len .
  then have lt: "range_start + fst (draw ?w g) < range_end" using r by linarith
  have "SampleIndex draw (range_start, range_end) s g =
          Inr (range_start + fst (draw ?w g), s, snd (draw ?w g))"
    using r lt by (simp add: SampleIndex_def Let_def)
  then show ?thesis using lt by auto
qed

lemma Join_two:
  assumes a: "clade_tree v1 L1" and b: "clade_tree v2 L2" and dj: "L1 \<inter> L2 = {}"
  shows "\<exists>v. Join [v1, v2] index = Inr v \<and> clade_tree v (L1 \<union> L2)"
proof -
  have ok: "\<forall>c \<in> set [v1, v2]. tags_ok c" using a b by (simp add: clade_tree_def)
  have d: "distinct (concat (map leaf_ids [v1, v2]))"
    using a b dj by (simp add: clade_tree_def)
  from Join_result[OF _ ok d, of index] obtain v where
    j: "Join [v1, v2] index = Inr v" and m: "mset (Children v) = mset [v1, v2]"
    and t: "tags_ok v" and dl: "distinct (leaf_ids v)"
    and sl: "set (leaf_ids v) = set (concat (map leaf_ids [v1, v2]))"
    by auto
  have "size (mset (Children v)) = size (mset [v1, v2])" using m by simp
  then have len: "length (Children v) = 2" by simp
  have "set_mset (mset (Children v)) = set_mset (mset [v1, v2])" using m by simp
  then have st: "set (Children v) = {v1, v2}" by simp
  have bf: "bifurcating v"
    unfolding bifurcating_iff[of v] using len st a b by (simp add: clade_tree_def)
  have "set (leaf_ids v) = L1 \<union> L2" using sl a b by (simp add: clade_tree_def)
  then show ?thesis using j bf t dl by (auto simp: clade_tree_def)
qed

lemma process_subsplit_total:
  assumes maps: "sampling_maps n s"
    and contract: "\<forall>weights g. weights \<noteq> [] \<longrightarrow> fst (draw weights g) < length weights"
    and sub: "\<And>child g. good_subsplit s n child \<Longrightarrow>
                length (ones (SplitChunk child 0)) + length (ones (SplitChunk child 1)) \<le> depth
                \<Longrightarrow> \<exists>v g'. SampleTopology_subsplit depth draw child s g = Inr (v, s, g') \<and>
                      clade_tree v (set (ones (SplitChunk child 0))
                                     \<union> set (ones (SplitChunk child 1)))"
    and closed: "closed_subsplit s parent"
    and ne: "ones (SplitChunk parent 1) \<noteq> []"
    and le: "length (ones (SplitChunk parent 1)) \<le> depth"
  shows "\<exists>v g'. process_subsplit depth draw parent s g = Inr (v, s, g') \<and>
           clade_tree v (set (ones (SplitChunk parent 1)))"
proof (cases "SingletonOption (SplitChunk parent 1)")
  case (Some i)
  then have o: "ones (SplitChunk parent 1) = [i]" by (rule SingletonOption_Some)
  have "clade_tree (Leaf i) {i}" by (simp add: clade_tree_def tags_ok_Leaf)
  then show ?thesis using Some o by simp
next
  case None
  then have "parent \<in> set (map fst (parent_to_range s))"
    using closed by (simp add: closed_subsplit_def)
  then obtain b e where entry: "(parent, b, e) \<in> set (parent_to_range s)" by auto
  have dp: "distinct (map fst (parent_to_range s))"
    and dc: "distinct (map fst (index_to_child s))"
    using maps by (simp_all add: sampling_maps_def)
  have range_at: "map_at (parent_to_range s) parent = Inr (b, e)"
    by (rule map_at_distinct[OF dp entry])
  have all: "\<forall>entry \<in> set (parent_to_range s).
        fst (snd entry) < snd (snd entry) \<and>
        snd (snd entry) \<le> length (sbn_parameters s) \<and>
        (\<forall>idx \<in> set [fst (snd entry) ..< snd (snd entry)].
           case map_of (index_to_child s) idx of
             None \<Rightarrow> False
           | Some child \<Rightarrow>
               good_subsplit s n child \<and>
               set (ones (SplitChunk child 0)) \<union> set (ones (SplitChunk child 1))
                 = set (ones (SplitChunk (fst entry) 1)))"
    using maps unfolding sampling_maps_def by blast
  note this_entry = all[rule_format, OF entry, unfolded fst_conv snd_conv]
  have be: "b < e" "e \<le> length (sbn_parameters s)" using this_entry by simp_all
  have kids: "\<forall>idx \<in> set [b ..< e].
           case map_of (index_to_child s) idx of
             None \<Rightarrow> False
           | Some child \<Rightarrow>
               good_subsplit s n child \<and>
               set (ones (SplitChunk child 0)) \<union> set (ones (SplitChunk child 1))
                 = set (ones (SplitChunk parent 1))"
    by (rule this_entry[THEN conjunct2, THEN conjunct2])
  from SampleIndex_success[OF contract be, of g] obtain idx g1 where
    si: "SampleIndex draw (b, e) s g = Inr (idx, s, g1)" and ir: "b \<le> idx" "idx < e"
    by blast
  have "case map_of (index_to_child s) idx of
             None \<Rightarrow> False
           | Some child \<Rightarrow>
               good_subsplit s n child \<and>
               set (ones (SplitChunk child 0)) \<union> set (ones (SplitChunk child 1))
                 = set (ones (SplitChunk parent 1))"
  proof (rule kids[rule_format])
    show "idx \<in> set [b ..< e]" using ir by simp
  qed
  then obtain child where
    c: "map_of (index_to_child s) idx = Some child"
    and g: "good_subsplit s n child"
    and u: "set (ones (SplitChunk child 0)) \<union> set (ones (SplitChunk child 1))
              = set (ones (SplitChunk parent 1))"
    by (auto split: option.splits)
  have child_at: "map_at (index_to_child s) idx = Inr child"
    using c by (simp add: map_at_def)
  have dj: "set (ones (SplitChunk child 0)) \<inter> set (ones (SplitChunk child 1)) = {}"
    using g by (simp add: good_subsplit_def)
  have "length (ones (SplitChunk child 0)) + length (ones (SplitChunk child 1))
          = card (set (ones (SplitChunk child 0)) \<union> set (ones (SplitChunk child 1)))"
    using dj by (simp add: card_Un_disjoint distinct_card[OF distinct_ones])
  also have "\<dots> = length (ones (SplitChunk parent 1))"
    unfolding u by (rule distinct_card[OF distinct_ones])
  finally have "length (ones (SplitChunk child 0)) + length (ones (SplitChunk child 1)) \<le> depth"
    using le by simp
  from sub[OF g this, of g1] obtain v g' where
    r: "SampleTopology_subsplit depth draw child s g1 = Inr (v, s, g')"
    and t: "clade_tree v (set (ones (SplitChunk child 0)) \<union> set (ones (SplitChunk child 1)))"
    by blast
  have "process_subsplit depth draw parent s g = Inr (v, s, g')"
    using None by (simp add: range_at si child_at r)
  then show ?thesis using t u by auto
qed

lemma SampleTopology_subsplit_total:
  assumes maps: "sampling_maps n s"
    and contract: "\<forall>weights g. weights \<noteq> [] \<longrightarrow> fst (draw weights g) < length weights"
  shows "good_subsplit s n subsplit \<Longrightarrow>
         length (ones (SplitChunk subsplit 0)) + length (ones (SplitChunk subsplit 1)) \<le> depth
         \<Longrightarrow> \<exists>v g'. SampleTopology_subsplit depth draw subsplit s g = Inr (v, s, g') \<and>
               clade_tree v (set (ones (SplitChunk subsplit 0))
                              \<union> set (ones (SplitChunk subsplit 1)))"
proof (induction depth arbitrary: subsplit g)
  case 0
  then show ?case by (simp add: good_subsplit_def)
next
  case (Suc depth)
  note good = Suc.prems(1)
  have len: "length subsplit = 2 * n"
    and n0: "ones (SplitChunk subsplit 0) \<noteq> []" and n1: "ones (SplitChunk subsplit 1) \<noteq> []"
    and dj: "set (ones (SplitChunk subsplit 0)) \<inter> set (ones (SplitChunk subsplit 1)) = {}"
    and c1: "closed_subsplit s subsplit" and c0: "closed_subsplit s (RotateSubsplit subsplit)"
    using good by (simp_all add: good_subsplit_def)
  note rot = SplitChunk_rotate[OF len]
  have p0: "0 < length (ones (SplitChunk subsplit 0))" using n0 by simp
  have p1: "0 < length (ones (SplitChunk subsplit 1))" using n1 by simp
  have l1: "length (ones (SplitChunk subsplit 1)) \<le> depth" using Suc.prems(2) p0 by linarith
  have l0: "length (ones (SplitChunk (RotateSubsplit subsplit) 1)) \<le> depth"
    unfolding rot(1) using Suc.prems(2) p1 by linarith
  have n0': "ones (SplitChunk (RotateSubsplit subsplit) 1) \<noteq> []" unfolding rot(1) by (rule n0)
  from process_subsplit_total[OF maps contract Suc.IH c1 n1 l1, of g] obtain v1 g1 where
    r1: "process_subsplit depth draw subsplit s g = Inr (v1, s, g1)"
    and t1: "clade_tree v1 (set (ones (SplitChunk subsplit 1)))"
    by blast
  from process_subsplit_total[OF maps contract Suc.IH c0 n0' l0, of g1] obtain v2 g2 where
    r2: "process_subsplit depth draw (RotateSubsplit subsplit) s g1 = Inr (v2, s, g2)"
    and t2: "clade_tree v2 (set (ones (SplitChunk subsplit 0)))"
    unfolding rot(1) by blast
  have dj': "set (ones (SplitChunk subsplit 1)) \<inter> set (ones (SplitChunk subsplit 0)) = {}"
    using dj by blast
  from Join_two[OF t1 t2 dj', of SIZE_MAX] obtain v where
    j: "Join [v1, v2] SIZE_MAX = Inr v"
    and t: "clade_tree v (set (ones (SplitChunk subsplit 1)) \<union> set (ones (SplitChunk subsplit 0)))"
    by blast
  have "SampleTopology_subsplit (Suc depth) draw subsplit s g = Inr (v, s, g2)"
    by (simp add: r1 r2 j del: process_subsplit.simps)
  then show ?case using t by (auto simp: Un_commute)
qed

section \<open>The topology that \<open>SampleTopology\<close> returns\<close>

lemma tags_ok_self:
  "tags_ok v \<Longrightarrow> fst (Tag v) \<in> set (leaf_ids v) \<and> snd (Tag v) = length (leaf_ids v)"
  using tags_ok_MaxLeafID[of v] tags_ok_tag[of v] by (simp add: MaxLeafID_def LeafCount_def)

lemma tags_ok_child: "tags_ok v \<Longrightarrow> c \<in> set (Children v) \<Longrightarrow> tags_ok c"
  by (cases v) simp

lemma subtree_tags_distinct:
  assumes "bifurcating v" "tags_ok v" "distinct (leaf_ids v)"
  shows "distinct (map Tag (PreOrder v)) \<and>
         (\<forall>u \<in> set (PreOrder v).
            fst (Tag u) \<in> set (leaf_ids v) \<and> snd (Tag u) \<le> length (leaf_ids v))"
  using assms
proof (induction v)
  case (Node cs i t h)
  let ?v = "Node cs i t h"
  note self = tags_ok_self[OF Node.prems(2)]
  from Node.prems(1) show ?case
  proof (cases rule: bifurcating_cases)
    case (leaf i' t' h')
    then have cs: "cs = []" by simp
    show ?thesis using self by (simp add: cs)
  next
    case (inner a b i' t' h')
    then have cs: "cs = [a, b]" by simp
    have l: "leaf_ids ?v = leaf_ids a @ leaf_ids b" by (simp add: cs)
    have da: "distinct (leaf_ids a)" and db: "distinct (leaf_ids b)"
      and dj: "set (leaf_ids a) \<inter> set (leaf_ids b) = {}"
      using Node.prems(3) unfolding l by simp_all
    have ta: "tags_ok a" and tb: "tags_ok b"
      using tags_ok_child[OF Node.prems(2)] by (simp_all add: cs)
    have ia: "distinct (map Tag (PreOrder a)) \<and>
         (\<forall>u \<in> set (PreOrder a).
            fst (Tag u) \<in> set (leaf_ids a) \<and> snd (Tag u) \<le> length (leaf_ids a))"
      using Node.IH[of a] cs inner(2) ta da by simp
    have ib: "distinct (map Tag (PreOrder b)) \<and>
         (\<forall>u \<in> set (PreOrder b).
            fst (Tag u) \<in> set (leaf_ids b) \<and> snd (Tag u) \<le> length (leaf_ids b))"
      using Node.IH[of b] cs inner(3) tb db by simp
    have pa: "0 < length (leaf_ids a)" and pb: "0 < length (leaf_ids b)"
      using leaf_ids_nonempty by simp_all
    have sv: "snd (Tag ?v) = length (leaf_ids a) + length (leaf_ids b)"
      using self unfolding l by simp
    have va: "Tag ?v \<noteq> Tag u" if "u \<in> set (PreOrder a)" for u
    proof -
      have "snd (Tag u) \<le> length (leaf_ids a)" using ia that by blast
      then have "snd (Tag u) < snd (Tag ?v)" using sv pb by linarith
      then show ?thesis by auto
    qed
    have vb: "Tag ?v \<noteq> Tag u" if "u \<in> set (PreOrder b)" for u
    proof -
      have "snd (Tag u) \<le> length (leaf_ids b)" using ib that by blast
      then have "snd (Tag u) < snd (Tag ?v)" using sv pa by linarith
      then show ?thesis by auto
    qed
    have ab: "Tag u \<noteq> Tag w" if "u \<in> set (PreOrder a)" "w \<in> set (PreOrder b)" for u w
    proof -
      have "fst (Tag u) \<in> set (leaf_ids a)" "fst (Tag w) \<in> set (leaf_ids b)"
        using ia ib that by blast+
      then show ?thesis using dj by auto
    qed
    have p: "PreOrder ?v = ?v # PreOrder a @ PreOrder b" by (simp add: cs)
    have wa: "Tag ?v \<notin> Tag ` set (PreOrder a)" using va by blast
    have wb: "Tag ?v \<notin> Tag ` set (PreOrder b)" using vb by blast
    have sab: "Tag ` set (PreOrder a) \<inter> Tag ` set (PreOrder b) = {}" using ab by blast
    have ea: "distinct (map Tag (PreOrder a))" and eb: "distinct (map Tag (PreOrder b))"
      using ia ib by blast+
    have d: "distinct (map Tag (PreOrder ?v))"
      unfolding p using wa wb by (simp add: sab ea eb)
    have m: "\<forall>u \<in> set (PreOrder ?v).
            fst (Tag u) \<in> set (leaf_ids ?v) \<and> snd (Tag u) \<le> length (leaf_ids ?v)"
    proof
      fix u assume "u \<in> set (PreOrder ?v)"
      then consider "u = ?v" | "u \<in> set (PreOrder a)" | "u \<in> set (PreOrder b)"
        unfolding p by auto
      then show "fst (Tag u) \<in> set (leaf_ids ?v) \<and> snd (Tag u) \<le> length (leaf_ids ?v)"
      proof cases
        case 1
        then show ?thesis using self by simp
      next
        case 2
        then have "fst (Tag u) \<in> set (leaf_ids a)" "snd (Tag u) \<le> length (leaf_ids a)"
          using ia by blast+
        then show ?thesis unfolding l by simp
      next
        case 3
        then have "fst (Tag u) \<in> set (leaf_ids b)" "snd (Tag u) \<le> length (leaf_ids b)"
          using ib by blast+
        then show ?thesis unfolding l by simp
      qed
    qed
    show ?thesis using d m by blast
  qed
qed

lemma root_tags_distinct:
  assumes t: "t = Node [c0, c1, c2] i tg h"
    and b: "bifurcating c0" "bifurcating c1" "bifurcating c2"
    and ok: "tags_ok t" and d: "distinct (leaf_ids t)"
  shows "distinct (map Tag (PreOrder t))"
proof -
  have l: "leaf_ids t = leaf_ids c0 @ leaf_ids c1 @ leaf_ids c2" by (simp add: t)
  have d0: "distinct (leaf_ids c0)" and d1: "distinct (leaf_ids c1)"
    and d2: "distinct (leaf_ids c2)"
    and j01: "set (leaf_ids c0) \<inter> set (leaf_ids c1) = {}"
    and j02: "set (leaf_ids c0) \<inter> set (leaf_ids c2) = {}"
    and j12: "set (leaf_ids c1) \<inter> set (leaf_ids c2) = {}"
    using d unfolding l by auto
  have k0: "tags_ok c0" and k1: "tags_ok c1" and k2: "tags_ok c2"
    using tags_ok_child[OF ok] by (simp_all add: t)
  note i0 = subtree_tags_distinct[OF b(1) k0 d0]
  note i1 = subtree_tags_distinct[OF b(2) k1 d1]
  note i2 = subtree_tags_distinct[OF b(3) k2 d2]
  have p0: "0 < length (leaf_ids c0)" and p1: "0 < length (leaf_ids c1)"
    and p2: "0 < length (leaf_ids c2)"
    using leaf_ids_nonempty by simp_all
  have sv: "snd (Tag t) = length (leaf_ids c0) + length (leaf_ids c1) + length (leaf_ids c2)"
    using tags_ok_self[OF ok] unfolding l by simp
  have v0: "Tag t \<noteq> Tag u" if "u \<in> set (PreOrder c0)" for u
  proof -
    have "snd (Tag u) \<le> length (leaf_ids c0)" using i0 that by blast
    then have "snd (Tag u) < snd (Tag t)" using sv p1 by linarith
    then show ?thesis by auto
  qed
  have v1: "Tag t \<noteq> Tag u" if "u \<in> set (PreOrder c1)" for u
  proof -
    have "snd (Tag u) \<le> length (leaf_ids c1)" using i1 that by blast
    then have "snd (Tag u) < snd (Tag t)" using sv p0 by linarith
    then show ?thesis by auto
  qed
  have v2: "Tag t \<noteq> Tag u" if "u \<in> set (PreOrder c2)" for u
  proof -
    have "snd (Tag u) \<le> length (leaf_ids c2)" using i2 that by blast
    then have "snd (Tag u) < snd (Tag t)" using sv p0 by linarith
    then show ?thesis by auto
  qed
  have a01: "Tag u \<noteq> Tag w" if "u \<in> set (PreOrder c0)" "w \<in> set (PreOrder c1)" for u w
  proof -
    have "fst (Tag u) \<in> set (leaf_ids c0)" "fst (Tag w) \<in> set (leaf_ids c1)"
      using i0 i1 that by blast+
    then show ?thesis using j01 by auto
  qed
  have a02: "Tag u \<noteq> Tag w" if "u \<in> set (PreOrder c0)" "w \<in> set (PreOrder c2)" for u w
  proof -
    have "fst (Tag u) \<in> set (leaf_ids c0)" "fst (Tag w) \<in> set (leaf_ids c2)"
      using i0 i2 that by blast+
    then show ?thesis using j02 by auto
  qed
  have a12: "Tag u \<noteq> Tag w" if "u \<in> set (PreOrder c1)" "w \<in> set (PreOrder c2)" for u w
  proof -
    have "fst (Tag u) \<in> set (leaf_ids c1)" "fst (Tag w) \<in> set (leaf_ids c2)"
      using i1 i2 that by blast+
    then show ?thesis using j12 by auto
  qed
  have p: "PreOrder t = t # PreOrder c0 @ PreOrder c1 @ PreOrder c2" by (simp add: t)
  have w0: "Tag t \<notin> Tag ` set (PreOrder c0)" using v0 by auto
  have w1: "Tag t \<notin> Tag ` set (PreOrder c1)" using v1 by auto
  have w2: "Tag t \<notin> Tag ` set (PreOrder c2)" using v2 by auto
  have s01: "Tag ` set (PreOrder c0) \<inter> Tag ` set (PreOrder c1) = {}" using a01 by blast
  have s02: "Tag ` set (PreOrder c0) \<inter> Tag ` set (PreOrder c2) = {}" using a02 by blast
  have s12: "Tag ` set (PreOrder c1) \<inter> Tag ` set (PreOrder c2) = {}" using a12 by blast
  have e0: "distinct (map Tag (PreOrder c0))" and e1: "distinct (map Tag (PreOrder c1))"
    and e2: "distinct (map Tag (PreOrder c2))"
    using i0 i1 i2 by blast+
  show ?thesis
    unfolding p
    by (simp add: w0 w1 w2 s01 s02 s12 e0 e1 e2 image_Un Int_Un_distrib)
qed

lemma unrooted_of_parts:
  assumes "length (Children t) = 3" "\<forall>c \<in> set (Children t). bifurcating c"
    and "tags_ok t" "distinct (leaf_ids t)" "set (leaf_ids t) = {0 ..< n}"
  shows "unrooted_topology t \<and> LeafCount t = n"
proof -
  from assms(1) obtain c0 c1 c2 where c: "Children t = [c0, c1, c2]" by (rule three_children)
  obtain cs i tg h where "t = Node cs i tg h" by (cases t)
  then have t: "t = Node [c0, c1, c2] i tg h" using c by simp
  have b: "bifurcating c0" "bifurcating c1" "bifurcating c2" using assms(2) c by simp_all
  have dt: "distinct (map Tag (PreOrder t))"
    by (rule root_tags_distinct[OF t b assms(3,4)])
  have "length (leaf_ids t) = card (set (leaf_ids t))"
    using assms(4) by (simp add: distinct_card)
  then have len: "length (leaf_ids t) = n" using assms(5) by simp
  have lc: "LeafCount t = n" using tags_ok_tag[OF assms(3)] len by simp
  have "\<forall>i \<in> set (leaf_ids t). i < LeafCount t" unfolding lc assms(5) by simp
  then show ?thesis
    unfolding unrooted_topology_def using assms(1,2,4) dt lc by blast
qed

lemma inner_node:
  assumes "bifurcating v" "length (leaf_ids v) \<noteq> 1"
  obtains a b where "Children v = [a, b]" "bifurcating a" "bifurcating b"
    "leaf_ids v = leaf_ids a @ leaf_ids b"
  using assms(1)
proof (cases rule: bifurcating_cases)
  case (leaf i t h)
  then show ?thesis using assms(2) by simp
next
  case (inner a b i t h)
  then show ?thesis using that[of a b] by simp
qed

lemma Deroot_result:
  assumes ct: "clade_tree v L" and big: "3 \<le> length (leaf_ids v)"
  shows "\<exists>t. Deroot v = Inr t \<and> length (Children t) = 3 \<and>
           (\<forall>c \<in> set (Children t). bifurcating c) \<and> tags_ok t \<and>
           distinct (leaf_ids t) \<and> set (leaf_ids t) = L"
proof -
  have bv: "bifurcating v" and tv: "tags_ok v" and dv: "distinct (leaf_ids v)"
    and sv: "set (leaf_ids v) = L"
    using ct by (simp_all add: clade_tree_def)
  have "length (leaf_ids v) \<noteq> 1" using big by simp
  from inner_node[OF bv this] obtain c0 c1 where
    cv: "Children v = [c0, c1]" and b0: "bifurcating c0" and b1: "bifurcating c1"
    and lv: "leaf_ids v = leaf_ids c0 @ leaf_ids c1"
    by blast
  have t0: "tags_ok c0" and t1: "tags_ok c1"
    using tags_ok_child[OF tv] by (simp_all add: cv)
  have finish: "\<exists>t. Join (Children x @ [y]) index = Inr t \<and> length (Children t) = 3 \<and>
           (\<forall>c \<in> set (Children t). bifurcating c) \<and> tags_ok t \<and>
           distinct (leaf_ids t) \<and> set (leaf_ids t) = L"
    if x: "bifurcating x" "tags_ok x" "length (leaf_ids x) \<noteq> 1"
      and y: "bifurcating y" "tags_ok y"
      and d: "distinct (leaf_ids x @ leaf_ids y)"
      and s: "set (leaf_ids x) \<union> set (leaf_ids y) = L"
    for x y index
  proof -
    from inner_node[OF x(1) x(3)] obtain a b where
      cx: "Children x = [a, b]" and ba: "bifurcating a" and bb: "bifurcating b"
      and lx: "leaf_ids x = leaf_ids a @ leaf_ids b"
      by blast
    have ta: "tags_ok a" and tb: "tags_ok b"
      using tags_ok_child[OF x(2)] by (simp_all add: cx)
    have ok: "\<forall>c \<in> set [a, b, y]. tags_ok c" using ta tb y(2) by simp
    have dd: "distinct (concat (map leaf_ids [a, b, y]))" using d unfolding lx by simp
    from Join_result[OF _ ok dd, of index] obtain t where
      j: "Join [a, b, y] index = Inr t" and m: "mset (Children t) = mset [a, b, y]"
      and tt: "tags_ok t" and dl: "distinct (leaf_ids t)"
      and sl: "set (leaf_ids t) = set (concat (map leaf_ids [a, b, y]))"
      by auto
    have "size (mset (Children t)) = size (mset [a, b, y])" using m by simp
    then have len: "length (Children t) = 3" by simp
    have "set_mset (mset (Children t)) = set_mset (mset [a, b, y])" using m by simp
    then have st: "set (Children t) = {a, b, y}" by simp
    have bf: "\<forall>c \<in> set (Children t). bifurcating c" unfolding st using ba bb y(1) by simp
    have "set (leaf_ids t) = L" unfolding sl using s unfolding lx by auto
    then show ?thesis using j len bf tt dl by (auto simp: cx)
  qed
  have l1: "LeafCount c1 = length (leaf_ids c1)" using tags_ok_tag[OF t1] by simp
  show ?thesis
  proof (cases "LeafCount c1 = 1")
    case True
    then have "length (leaf_ids c0) \<noteq> 1" using big l1 unfolding lv by simp
    from finish[OF b0 t0 this b1 t1, of "Index c0"] dv sv
    have "\<exists>t. Join (Children c0 @ [c1]) (Index c0) = Inr t \<and> length (Children t) = 3 \<and>
           (\<forall>c \<in> set (Children t). bifurcating c) \<and> tags_ok t \<and>
           distinct (leaf_ids t) \<and> set (leaf_ids t) = L"
      unfolding lv by simp
    then show ?thesis using True by (simp add: Deroot_def cv)
  next
    case False
    then have n1: "length (leaf_ids c1) \<noteq> 1" using l1 by simp
    have d': "distinct (leaf_ids c1 @ leaf_ids c0)" using dv unfolding lv by auto
    have s': "set (leaf_ids c1) \<union> set (leaf_ids c0) = L" using sv unfolding lv by auto
    from finish[OF b1 t1 n1 b0 t0 d' s', of "Index c1"]
    show ?thesis using False by (simp add: Deroot_def cv)
  qed
qed

section \<open>Re-indexing keeps the topology\<close>

lemma Reindex_unindexed:
  "unindexed (fst (Reindex_node v k)) = unindexed v"
  "map unindexed (fst (Reindex_nodes cs k)) = map unindexed cs"
  by (induction v k and cs k rule: Reindex_node_Reindex_nodes.induct)
     (simp_all add: Let_def)

lemma leaf_ids_unindexed: "leaf_ids (unindexed v) = leaf_ids v"
proof (induction v)
  case (Node cs i t h)
  have e: "map (\<lambda>c. leaf_ids (unindexed c)) cs = map leaf_ids cs"
    by (rule map_cong[OF refl]) (rule Node.IH)
  show ?case by (simp add: comp_def e)
qed

lemma bifurcating_unindexed: "bifurcating (unindexed v) = bifurcating v"
  by (induction v) auto

lemma tags_unindexed: "map Tag (PreOrder (unindexed v)) = map Tag (PreOrder v)"
proof (induction v)
  case (Node cs i t h)
  have e: "map (\<lambda>c. map Tag (PreOrder (unindexed c))) cs = map (\<lambda>c. map Tag (PreOrder c)) cs"
    by (rule map_cong[OF refl]) (rule Node.IH)
  show ?case by (simp add: map_concat comp_def e)
qed

lemma PostOrder_unindexed_tags: "map Tag (PostOrder (unindexed v)) = map Tag (PostOrder v)"
proof (induction v)
  case (Node cs i t h)
  have e: "map (\<lambda>c. map Tag (PostOrder (unindexed c))) cs = map (\<lambda>c. map Tag (PostOrder c)) cs"
    by (rule map_cong[OF refl]) (rule Node.IH)
  show ?case by (simp add: map_concat comp_def e)
qed

lemma Children_unindexed: "Children (unindexed v) = map unindexed (Children v)"
  by (cases v) simp

lemma Tag_unindexed: "Tag (unindexed v) = Tag v"
  by (cases v) simp

lemma unrooted_topology_unindexed: "unrooted_topology (unindexed t) = unrooted_topology t"
  unfolding unrooted_topology_def
  by (simp add: Children_unindexed leaf_ids_unindexed bifurcating_unindexed tags_unindexed
      LeafCount_def Tag_unindexed)

lemma unindexed_transfer:
  assumes "unindexed t' = unindexed t"
  shows "unrooted_topology t' = unrooted_topology t" "leaf_ids t' = leaf_ids t"
    "LeafCount t' = LeafCount t" "length (PreOrder t') = length (PreOrder t)"
proof -
  show "unrooted_topology t' = unrooted_topology t"
    using unrooted_topology_unindexed[of t'] unrooted_topology_unindexed[of t] assms by simp
  show "leaf_ids t' = leaf_ids t"
    using leaf_ids_unindexed[of t'] leaf_ids_unindexed[of t] assms by simp
  show "LeafCount t' = LeafCount t"
    using Tag_unindexed[of t'] Tag_unindexed[of t] assms by (simp add: LeafCount_def)
  have "length (map Tag (PreOrder t')) = length (map Tag (PreOrder t))"
    using tags_unindexed[of t'] tags_unindexed[of t] assms by simp
  then show "length (PreOrder t') = length (PreOrder t)" by simp
qed

lemma Polish_result:
  assumes "unrooted_topology t"
  shows "\<exists>t'. Polish t = Inr t' \<and> unindexed t' = unindexed t"
proof -
  have "mset (map Tag (PostOrder t)) = mset (map Tag (PreOrder t))"
    by (simp add: mset_PostOrder)
  moreover have "distinct (map Tag (PreOrder t))"
    using assms by (simp add: unrooted_topology_def)
  ultimately have "distinct (map Tag (PostOrder t))"
    by (metis mset_eq_imp_distinct_iff)
  then show ?thesis by (simp add: Polish_def Reindex_def Reindex_unindexed)
qed

lemma subtree_node_count:
  "bifurcating v \<Longrightarrow> length (PreOrder v) + 1 = 2 * length (leaf_ids v)"
proof (induction v)
  case (Node cs i t h)
  from Node.prems show ?case
  proof (cases rule: bifurcating_cases)
    case (leaf i' t' h')
    then show ?thesis by simp
  next
    case (inner a b i' t' h')
    then have cs: "cs = [a, b]" by simp
    have "length (PreOrder a) + 1 = 2 * length (leaf_ids a)"
      "length (PreOrder b) + 1 = 2 * length (leaf_ids b)"
      using Node.IH[of a] Node.IH[of b] inner cs by simp_all
    then show ?thesis by (simp add: cs)
  qed
qed

lemma unrooted_node_count:
  assumes "unrooted_topology t"
  shows "length (PreOrder t) + 2 = 2 * length (leaf_ids t)"
  using assms
proof (cases rule: unrooted_topology_children)
  case (1 c0 c1 c2 i tg h)
  note n0 = subtree_node_count[OF 1(2)]
  note n1 = subtree_node_count[OF 1(3)]
  note n2 = subtree_node_count[OF 1(4)]
  show ?thesis using n0 n1 n2 by (simp add: 1(1))
qed

section \<open>\<open>SampleTopology\<close> and \<open>SampleTrees\<close> return\<close>

lemma root_subsplit_chunks:
  "SplitChunk (r @ Bitset_flip r) 0 = r" "SplitChunk (r @ Bitset_flip r) 1 = Bitset_flip r"
  by (simp_all add: SplitChunk_def Bitset_flip_def Let_def)

lemma ones_flip: "ones (Bitset_flip r) = filter (\<lambda>i. \<not> r ! i) [0 ..< length r]"
  unfolding ones_def Bitset_flip_def by (rule filter_cong) simp_all

lemma ones_complement:
  "set (ones r) \<union> set (ones (Bitset_flip r)) = {0 ..< length r}"
  "length (ones r) + length (ones (Bitset_flip r)) = length r"
proof -
  show "set (ones r) \<union> set (ones (Bitset_flip r)) = {0 ..< length r}"
    unfolding ones_flip by (auto simp: ones_def)
  have "length (filter (\<lambda>i. r ! i) [0 ..< length r])
          + length (filter (\<lambda>i. \<not> r ! i) [0 ..< length r]) = length [0 ..< length r]"
    by (rule sum_length_filter_compl)
  then show "length (ones r) + length (ones (Bitset_flip r)) = length r"
    unfolding ones_flip by (simp add: ones_def)
qed

lemma SampleTopology_total:
  assumes maps: "sampling_maps n s"
    and contract: "\<forall>weights g. weights \<noteq> [] \<longrightarrow> fst (draw weights g) < length weights"
    and n3: "3 \<le> n" and deep: "n \<le> depth"
  shows "\<exists>t g'. SampleTopology depth draw False s g = Inr (t, s, g') \<and>
           unrooted_topology t \<and> set (leaf_ids t) = {0 ..< n} \<and> LeafCount t = n \<and>
           length (PreOrder t) = 2 * n - 2"
proof -
  have ne: "rootsplits s \<noteq> []" and le: "length (rootsplits s) \<le> length (sbn_parameters s)"
    and roots: "\<forall>r \<in> set (rootsplits s). length r = n \<and> good_subsplit s n (r @ Bitset_flip r)"
    using maps unfolding sampling_maps_def by blast+
  have pos: "0 < length (rootsplits s)" using ne by simp
  from SampleIndex_success[OF contract pos le, of g] obtain idx g1 where
    si: "SampleIndex draw (0, length (rootsplits s)) s g = Inr (idx, s, g1)"
    and ir: "idx < length (rootsplits s)"
    by blast
  let ?r = "rootsplits s ! idx"
  have mem: "?r \<in> set (rootsplits s)" using ir by simp
  have lr: "length ?r = n" and good: "good_subsplit s n (?r @ Bitset_flip ?r)"
    using roots mem by blast+
  have size: "length (ones (SplitChunk (?r @ Bitset_flip ?r) 0))
                + length (ones (SplitChunk (?r @ Bitset_flip ?r) 1)) \<le> depth"
    unfolding root_subsplit_chunks ones_complement(2) lr by (rule deep)
  from SampleTopology_subsplit_total[OF maps contract good size, of g1] obtain v g2 where
    sub: "SampleTopology_subsplit depth draw (?r @ Bitset_flip ?r) s g1 = Inr (v, s, g2)"
    and ct: "clade_tree v (set (ones (SplitChunk (?r @ Bitset_flip ?r) 0))
                            \<union> set (ones (SplitChunk (?r @ Bitset_flip ?r) 1)))"
    by blast
  have ct': "clade_tree v {0 ..< n}"
    using ct unfolding root_subsplit_chunks ones_complement(1) lr .
  have dv: "distinct (leaf_ids v)" and sv: "set (leaf_ids v) = {0 ..< n}"
    using ct' by (simp_all add: clade_tree_def)
  have "card (set (leaf_ids v)) = length (leaf_ids v)" by (rule distinct_card[OF dv])
  then have "length (leaf_ids v) = n" unfolding sv by simp
  then have big: "3 \<le> length (leaf_ids v)" using n3 by simp
  from Deroot_result[OF ct' big] obtain t where
    de: "Deroot v = Inr t" and three: "length (Children t) = 3"
    and bif: "\<forall>c \<in> set (Children t). bifurcating c" and ok: "tags_ok t"
    and dl: "distinct (leaf_ids t)" and sl: "set (leaf_ids t) = {0 ..< n}"
    by blast
  note un = unrooted_of_parts[OF three bif ok dl sl]
  from Polish_result[OF un[THEN conjunct1]] obtain t' where
    po: "Polish t = Inr t'" and same: "unindexed t' = unindexed t"
    by blast
  note tr = unindexed_transfer[OF same]
  have u': "unrooted_topology t'" using tr(1) un by simp
  have s': "set (leaf_ids t') = {0 ..< n}" using tr(2) sl by simp
  have c': "LeafCount t' = n" using tr(3) un by simp
  have "card (set (leaf_ids t)) = length (leaf_ids t)" by (rule distinct_card[OF dl])
  then have "length (leaf_ids t') = n" unfolding sl tr(2) by simp
  then have p': "length (PreOrder t') = 2 * n - 2"
    using unrooted_node_count[OF u'] by simp
  have "SampleTopology depth draw False s g = Inr (t', s, g2)"
    unfolding SampleTopology_def by (simp add: si ir sub de po Let_def)
  then show ?thesis using u' s' c' p' by blast
qed

lemma good_subsplit_cong:
  "parent_to_range s0 = parent_to_range s \<Longrightarrow> good_subsplit s0 n = good_subsplit s n"
  by (rule ext) (simp add: good_subsplit_def closed_subsplit_def)

lemma sampling_maps_cong:
  assumes "rootsplits s0 = rootsplits s" "sbn_parameters s0 = sbn_parameters s"
    and "parent_to_range s0 = parent_to_range s" "index_to_child s0 = index_to_child s"
  shows "sampling_maps n s0 = sampling_maps n s"
  unfolding sampling_maps_def good_subsplit_cong[OF assms(3)] assms ..

lemma sampling_maps_collection:
  "sampling_maps n (s\<lparr>tree_collection := collection\<rparr>) = sampling_maps n s"
  by (rule sampling_maps_cong) simp_all

lemma sampling_maps_same:
  "same_maps s s0 \<Longrightarrow> sampling_maps n s0 = sampling_maps n s"
  by (rule sampling_maps_cong) (simp_all add: same_maps_def)

lemma SampleTrees_loop_total:
  assumes contract: "\<forall>weights g. weights \<noteq> [] \<longrightarrow> fst (draw weights g) < length weights"
    and n3: "3 \<le> n" and deep: "n \<le> depth" and edges: "0 \<le> edge_count"
  shows "sampling_maps n s \<Longrightarrow>
         \<exists>s' g'. SampleTrees_loop depth draw edge_count cnt s g = Inr (s', g')"
proof (induction cnt arbitrary: s g)
  case 0
  then show ?case by simp
next
  case (Suc cnt)
  from SampleTopology_total[OF Suc.prems contract n3 deep, of g] obtain t g1 where
    st: "SampleTopology depth draw False s g = Inr (t, s, g1)"
    by blast
  let ?tree = "\<lparr>Topology = t, branch_lengths = replicate (nat edge_count) (0 :: real)\<rparr>"
  let ?s2 = "s\<lparr>tree_collection :=
                 (tree_collection s)\<lparr>trees := trees (tree_collection s) @ [?tree]\<rparr>\<rparr>"
  have "sampling_maps n ?s2" using Suc.prems by (simp add: sampling_maps_collection)
  from Suc.IH[OF this, of g1] obtain s' g' where
    "SampleTrees_loop depth draw edge_count cnt ?s2 g1 = Inr (s', g')"
    by blast
  then have "SampleTrees_loop depth draw edge_count (Suc cnt) s g = Inr (s', g')"
    using edges by (simp add: st Let_def)
  then show ?case by blast
qed

lemma SampleTrees_total:
  assumes avail: "CheckSBNMapsAvailable s = Inr ()"
    and maps: "sampling_maps n s"
    and contract: "\<forall>weights g. weights \<noteq> [] \<longrightarrow> fst (draw weights g) < length weights"
    and n3: "3 \<le> n" and deep: "n \<le> depth"
  shows "\<exists>s' g'. SampleTrees depth draw cnt s g = Inr (s', g') \<and>
           length (trees (tree_collection s')) = cnt \<and>
           (\<forall>tree \<in> set (trees (tree_collection s')).
              unrooted_topology (Topology tree) \<and>
              set (leaf_ids (Topology tree)) = {0 ..< n} \<and>
              LeafCount (Topology tree) = n \<and>
              length (PreOrder (Topology tree)) = 2 * n - 2 \<and>
              branch_lengths tree = replicate (2 * n - 2) 0) \<and>
           same_maps s s'"
proof -
  have ne: "rootsplits s \<noteq> []"
    and roots: "\<forall>r \<in> set (rootsplits s). length r = n \<and> good_subsplit s n (r @ Bitset_flip r)"
    using maps unfolding sampling_maps_def by blast+
  have "rootsplits s ! 0 \<in> set (rootsplits s)" using ne by simp
  then have l0: "length (rootsplits s ! 0) = n" using roots by blast
  let ?s1 = "s\<lparr>tree_collection := (tree_collection s)\<lparr>trees := []\<rparr>\<rparr>"
  let ?e = "2 * int (length (rootsplits s ! 0)) - 2"
  have e0: "0 \<le> ?e" unfolding l0 using n3 by simp
  have m1: "sampling_maps n ?s1" using maps by (simp add: sampling_maps_collection)
  from SampleTrees_loop_total[OF contract n3 deep e0 m1, of cnt g] obtain s' g' where
    l: "SampleTrees_loop depth draw ?e cnt ?s1 g = Inr (s', g')"
    by blast
  have r: "SampleTrees depth draw cnt s g = Inr (s', g')"
    using l by (simp add: SampleTrees_def avail Let_def)
  from SampleTrees_result[OF r] have
    sm: "same_maps s s'" and len: "length (trees (tree_collection s')) = cnt"
    and each: "\<forall>tree \<in> set (trees (tree_collection s')).
            branch_lengths tree = replicate (2 * length (rootsplits s ! 0) - 2) 0 \<and>
            (\<exists>s0 g0 g1. same_maps s s0 \<and>
               SampleTopology depth draw False s0 g0 = Inr (Topology tree, s0, g1))"
    by blast+
  have props: "unrooted_topology (Topology tree) \<and>
              set (leaf_ids (Topology tree)) = {0 ..< n} \<and>
              LeafCount (Topology tree) = n \<and>
              length (PreOrder (Topology tree)) = 2 * n - 2 \<and>
              branch_lengths tree = replicate (2 * n - 2) 0"
    if "tree \<in> set (trees (tree_collection s'))" for tree
  proof -
    from each that obtain s0 g0 g1 where
      bl: "branch_lengths tree = replicate (2 * n - 2) 0"
      and s0: "same_maps s s0"
      and st: "SampleTopology depth draw False s0 g0 = Inr (Topology tree, s0, g1)"
      unfolding l0 by blast
    have "sampling_maps n s0" using sampling_maps_same[OF s0] maps by simp
    from SampleTopology_total[OF this contract n3 deep, of g0] obtain t g2 where
      "SampleTopology depth draw False s0 g0 = Inr (t, s0, g2)"
      and p: "unrooted_topology t" "set (leaf_ids t) = {0 ..< n}" "LeafCount t = n"
        "length (PreOrder t) = 2 * n - 2"
      by blast
    then have "t = Topology tree" using st by simp
    then show ?thesis using p bl by simp
  qed
  show ?thesis using r len props sm by blast
qed

text \<open>
  Claim C10. \<open>SampleTrees\<close> fails with "Please call ProcessLoadedTrees to prepare your
  SBN maps." when the check of the SBN maps fails. When the check passes, the maps are
  fit for sampling over \<open>n\<close> taxa, \<open>n\<close> at least three, the sampler keeps the contract of
  \<open>std::discrete_distribution\<close> and the recursion is given a depth of at least \<open>n\<close>, then
  \<open>SampleTrees\<close> returns, and the tree collection holds exactly \<open>cnt\<close> trees, every one of
  them an unrooted topology (three children at the root, two at every other inner
  node, distinct tags) on the taxa \<open>0, ..., n - 1\<close>, with \<open>2 * n - 2\<close> nodes and a branch
  length vector of \<open>2 * n - 2\<close> zeros. Whenever \<open>SampleTrees\<close> returns, the check had
  passed, the collection holds exactly \<open>cnt\<close> trees, none of them from before the call,
  each with a branch length vector of \<open>2 * leaf_count - 2\<close> zeros, where \<open>leaf_count\<close> is
  the length of the first rootsplit, and with the topology that a call of
  \<open>SampleTopology\<close> with \<open>rooted = false\<close> returned; and the indexer, the parameter
  vector, the parent-to-range map and the topology counter are the ones given.
\<close>

theorem SampleTrees_effect:
  "(CheckSBNMapsAvailable s \<noteq> Inr () \<longrightarrow>
      SampleTrees depth draw cnt s g = Inl SBNMapsUnavailable) \<and>
   (CheckSBNMapsAvailable s = Inr () \<and> sampling_maps n s \<and> 3 \<le> n \<and> n \<le> depth \<and>
    (\<forall>weights g. weights \<noteq> [] \<longrightarrow> fst (draw weights g) < length weights) \<longrightarrow>
      (\<exists>s' g'. SampleTrees depth draw cnt s g = Inr (s', g') \<and>
         length (trees (tree_collection s')) = cnt \<and>
         (\<forall>tree \<in> set (trees (tree_collection s')).
            unrooted_topology (Topology tree) \<and>
            set (leaf_ids (Topology tree)) = {0 ..< n} \<and>
            LeafCount (Topology tree) = n \<and>
            length (PreOrder (Topology tree)) = 2 * n - 2 \<and>
            branch_lengths tree = replicate (2 * n - 2) 0) \<and>
         indexer s' = indexer s \<and> sbn_parameters s' = sbn_parameters s \<and>
         parent_to_range s' = parent_to_range s \<and>
         topology_counter s' = topology_counter s)) \<and>
   (\<forall>s' g'. SampleTrees depth draw cnt s g = Inr (s', g') \<longrightarrow>
      CheckSBNMapsAvailable s = Inr () \<and>
      length (trees (tree_collection s')) = cnt \<and>
      (\<forall>tree \<in> set (trees (tree_collection s')).
         branch_lengths tree = replicate (2 * length (rootsplits s ! 0) - 2) 0 \<and>
         (\<exists>s0 g0 g1. same_maps s s0 \<and>
            SampleTopology depth draw False s0 g0 = Inr (Topology tree, s0, g1))) \<and>
      indexer s' = indexer s \<and> sbn_parameters s' = sbn_parameters s \<and>
      parent_to_range s' = parent_to_range s \<and> topology_counter s' = topology_counter s)"
proof -
  have a: "CheckSBNMapsAvailable s \<noteq> Inr () \<longrightarrow>
      SampleTrees depth draw cnt s g = Inl SBNMapsUnavailable"
    by (auto simp: SampleTrees_def CheckSBNMapsAvailable_def)
  have b: "\<exists>s' g'. SampleTrees depth draw cnt s g = Inr (s', g') \<and>
         length (trees (tree_collection s')) = cnt \<and>
         (\<forall>tree \<in> set (trees (tree_collection s')).
            unrooted_topology (Topology tree) \<and>
            set (leaf_ids (Topology tree)) = {0 ..< n} \<and>
            LeafCount (Topology tree) = n \<and>
            length (PreOrder (Topology tree)) = 2 * n - 2 \<and>
            branch_lengths tree = replicate (2 * n - 2) 0) \<and>
         indexer s' = indexer s \<and> sbn_parameters s' = sbn_parameters s \<and>
         parent_to_range s' = parent_to_range s \<and>
         topology_counter s' = topology_counter s"
    if h: "CheckSBNMapsAvailable s = Inr () \<and> sampling_maps n s \<and> 3 \<le> n \<and> n \<le> depth \<and>
           (\<forall>weights g. weights \<noteq> [] \<longrightarrow> fst (draw weights g) < length weights)"
  proof -
    have h1: "CheckSBNMapsAvailable s = Inr ()" and h2: "sampling_maps n s"
      and h3: "3 \<le> n" and h4: "n \<le> depth"
      and h5: "\<forall>weights g. weights \<noteq> [] \<longrightarrow> fst (draw weights g) < length weights"
      using h by blast+
    from SampleTrees_total[OF h1 h2 h5 h3 h4, of cnt g] obtain s' g' where
      r: "SampleTrees depth draw cnt s g = Inr (s', g')"
      and len: "length (trees (tree_collection s')) = cnt"
      and each: "\<forall>tree \<in> set (trees (tree_collection s')).
              unrooted_topology (Topology tree) \<and>
              set (leaf_ids (Topology tree)) = {0 ..< n} \<and>
              LeafCount (Topology tree) = n \<and>
              length (PreOrder (Topology tree)) = 2 * n - 2 \<and>
              branch_lengths tree = replicate (2 * n - 2) 0"
      and sm: "same_maps s s'"
      by blast
    have fr: "indexer s' = indexer s" "sbn_parameters s' = sbn_parameters s"
      "parent_to_range s' = parent_to_range s" "topology_counter s' = topology_counter s"
      using sm by (simp_all add: same_maps_def)
    show ?thesis
      by (intro exI[of _ s'] exI[of _ g'] conjI) (rule r, rule len, rule each, rule fr(1),
          rule fr(2), rule fr(3), rule fr(4))
  qed
  have c: "CheckSBNMapsAvailable s = Inr () \<and>
      length (trees (tree_collection s')) = cnt \<and>
      (\<forall>tree \<in> set (trees (tree_collection s')).
         branch_lengths tree = replicate (2 * length (rootsplits s ! 0) - 2) 0 \<and>
         (\<exists>s0 g0 g1. same_maps s s0 \<and>
            SampleTopology depth draw False s0 g0 = Inr (Topology tree, s0, g1))) \<and>
      indexer s' = indexer s \<and> sbn_parameters s' = sbn_parameters s \<and>
      parent_to_range s' = parent_to_range s \<and> topology_counter s' = topology_counter s"
    if "SampleTrees depth draw cnt s g = Inr (s', g')" for s' g'
    using SampleTrees_result[OF that] by (simp add: same_maps_def)
  show ?thesis
    by (rule conjI[OF a conjI]) (rule impI, erule b, intro allI impI, erule c)
qed

theorem SampleTrees_effect_witness:
  "CheckSBNMapsAvailable empty_instance \<noteq> Inr () \<and>
   SampleTrees 4 always_first 2 empty_instance () = Inl SBNMapsUnavailable \<and>
   CheckSBNMapsAvailable four_taxon_instance = Inr () \<and> sampling_maps 4 four_taxon_instance \<and>
   (\<exists>s' g'. SampleTrees 4 always_first 2 four_taxon_instance () = Inr (s', g') \<and>
      length (trees (tree_collection s')) = 2 \<and>
      (\<forall>tree \<in> set (trees (tree_collection s')).
         unrooted_topology (Topology tree) \<and>
         set (leaf_ids (Topology tree)) = {0 ..< 4} \<and>
         length (PreOrder (Topology tree)) = 6 \<and>
         branch_lengths tree = [0, 0, 0, 0, 0, 0]) \<and>
      indexer s' = indexer four_taxon_instance \<and>
      sbn_parameters s' = sbn_parameters four_taxon_instance)"
proof -
  note effect = SampleTrees_effect[of _ 4 always_first 2 "()" 4]
  have e: "CheckSBNMapsAvailable empty_instance \<noteq> Inr ()"
    by (simp add: CheckSBNMapsAvailable_def empty_instance_def)
  have f: "SampleTrees 4 always_first 2 empty_instance () = Inl SBNMapsUnavailable"
    using effect[of empty_instance] e by blast
  have av: "CheckSBNMapsAvailable four_taxon_instance = Inr ()"
    by (simp add: CheckSBNMapsAvailable_def four_taxon_instance_def)
  have maps: "sampling_maps 4 four_taxon_instance" by code_simp
  have contract:
    "\<forall>weights g. weights \<noteq> [] \<longrightarrow> fst (always_first weights g) < length weights"
    by (simp add: always_first_def)
  have h: "CheckSBNMapsAvailable four_taxon_instance = Inr () \<and>
           sampling_maps 4 four_taxon_instance \<and> (3 :: nat) \<le> 4 \<and> (4 :: nat) \<le> 4 \<and>
           (\<forall>weights g. weights \<noteq> [] \<longrightarrow> fst (always_first weights g) < length weights)"
    using av maps contract by simp
  from effect[of four_taxon_instance, THEN conjunct2, THEN conjunct1, rule_format, OF h]
  obtain s' g' where
    all: "SampleTrees 4 always_first 2 four_taxon_instance () = Inr (s', g') \<and>
         length (trees (tree_collection s')) = 2 \<and>
         (\<forall>tree \<in> set (trees (tree_collection s')).
            unrooted_topology (Topology tree) \<and>
            set (leaf_ids (Topology tree)) = {0 ..< 4} \<and>
            LeafCount (Topology tree) = 4 \<and>
            length (PreOrder (Topology tree)) = 2 * 4 - 2 \<and>
            branch_lengths tree = replicate (2 * 4 - 2) 0) \<and>
         indexer s' = indexer four_taxon_instance \<and>
         sbn_parameters s' = sbn_parameters four_taxon_instance \<and>
         parent_to_range s' = parent_to_range four_taxon_instance \<and>
         topology_counter s' = topology_counter four_taxon_instance"
    by (elim exE)
  have six: "replicate (2 * 4 - 2) (0 :: real) = [0, 0, 0, 0, 0, 0]"
    by (simp add: numeral_eq_Suc)
  have each: "\<forall>tree \<in> set (trees (tree_collection s')).
         unrooted_topology (Topology tree) \<and>
         set (leaf_ids (Topology tree)) = {0 ..< 4} \<and>
         length (PreOrder (Topology tree)) = 6 \<and>
         branch_lengths tree = [0, 0, 0, 0, 0, 0]"
    using all[THEN conjunct2, THEN conjunct2, THEN conjunct1] unfolding six by simp
  show ?thesis
    by (intro conjI exI[of _ s'] exI[of _ g'])
       (rule e, rule f, rule av, rule maps, rule all[THEN conjunct1],
        rule all[THEN conjunct2, THEN conjunct1], rule each,
        rule all[THEN conjunct2, THEN conjunct2, THEN conjunct2, THEN conjunct1],
        rule all[THEN conjunct2, THEN conjunct2, THEN conjunct2, THEN conjunct2, THEN conjunct1])
qed

section \<open>The rooted views of a topology\<close>

lemma sequence_results_all:
  "\<forall>x \<in> set xs. f x = Inr (g x) \<Longrightarrow> sequence_results (map f xs) = Inr (map g xs)"
  by (induction xs) simp_all

lemma visible_from_calls:
  "visible_from r (zip calls (map k calls))
     = map k (filter (\<lambda>call. covers (position call) r) calls)"
  unfolding visible_from_def by (induction calls) simp_all

lemma mset_concat_PostOrder:
  "mset (concat (map PostOrder cs)) = mset (concat (map PreOrder cs))"
  by (induction cs) (simp_all add: mset_PostOrder)

lemma mset_edge_nodes: "mset (edge_nodes t) = mset (edges t)"
proof -
  let ?below = "concat (map PostOrder (Children t))"
  have "mset (edge_nodes t) = mset (filter IsLeaf ?below) + mset (filter (\<lambda>n. \<not> IsLeaf n) ?below)"
    by (simp add: edge_nodes_def Let_def)
  also have "\<dots> = mset ?below" by simp
  also have "\<dots> = mset (edges t)" unfolding edges_def by (rule mset_concat_PostOrder)
  finally show ?thesis .
qed

lemma set_edge_nodes: "set (edge_nodes t) = set (edges t)"
  using mset_edge_nodes by (metis set_mset_mset)

lemma length_edge_nodes: "length (edge_nodes t) = length (edges t)"
  using mset_edge_nodes by (metis size_mset)

lemma RootedViews_result:
  assumes "unrooted_topology t"
  shows "RootedViews t
           = Inr (map (\<lambda>r. rootsplit_of_edge (LeafCount t) r
                            # map (pcss_key_of_call (LeafCount t)) (calls_seen_from t r))
                    (edge_nodes t))"
proof -
  let ?n = "LeafCount t"
  have tg: "distinct (map Tag (PreOrder t))" and r: "\<forall>i \<in> set (leaf_ids t). i < ?n"
    using assms by (simp_all add: unrooted_topology_def)
  obtain m where m: "TagBitsetMapOf t = Inr m"
    using TagBitsetMapOf_result[OF tg r] by blast
  note look = TagBitsetMapOf_lookup[OF tg r m]
  have calls: "PCSS_calls t = Inr (topology_calls t)" by (rule PCSS_calls_result[OF assms])
  have key: "PCSS_key m ?n call = Inr (pcss_key_of_call ?n call)"
    if "call \<in> set (topology_calls t)" for call
  proof -
    have "\<forall>u \<in> {sister_node call, focal_node call, child0_node call, child1_node call}.
            map_at m (Tag u) = Inr (clade ?n u)"
      using look topology_calls_nodes[OF that] by blast
    from PCSS_keys_of_call[OF this] show ?thesis
      by (simp add: PCSS_key_def pcss_key_of_call_def)
  qed
  have keys: "sequence_results (map (PCSS_key m ?n) (topology_calls t))
                = Inr (map (pcss_key_of_call ?n) (topology_calls t))"
    by (rule sequence_results_all) (use key in blast)
  have root: "rootsplit_key m v = Inr (rootsplit_of_edge ?n v)" if "v \<in> set (edge_nodes t)" for v
  proof -
    have "v \<in> set (PreOrder t)"
      using that edges_in_topology unfolding set_edge_nodes by blast
    then show ?thesis using look by (simp add: rootsplit_key_def rootsplit_of_edge_def)
  qed
  have views: "sequence_results
           (map (\<lambda>r. then_do (rootsplit_key m r)
                       (\<lambda>rootsplit. Inr (rootsplit # visible_from r
                          (zip (topology_calls t)
                               (map (pcss_key_of_call ?n) (topology_calls t))))))
              (edge_nodes t))
        = Inr (map (\<lambda>r. rootsplit_of_edge ?n r
                            # map (pcss_key_of_call ?n) (calls_seen_from t r))
                    (edge_nodes t))"
    by (rule sequence_results_all)
       (simp add: root visible_from_calls calls_seen_from_def)
  show ?thesis
    unfolding RootedViews_def by (simp add: m calls keys views)
qed

lemma distinct_nodes: "unrooted_topology t \<Longrightarrow> distinct (PreOrder t)"
  unfolding unrooted_topology_def using distinct_map by blast

lemma subtree_inner_count:
  "bifurcating v \<Longrightarrow>
     length (filter (\<lambda>u. \<not> IsLeaf u) (PreOrder v)) + 1 = length (leaf_ids v)"
proof (induction v)
  case (Node cs i t h)
  from Node.prems show ?case
  proof (cases rule: bifurcating_cases)
    case (leaf i' t' h')
    then show ?thesis by (simp add: IsLeaf_def)
  next
    case (inner a b i' t' h')
    then have cs: "cs = [a, b]" by simp
    have "length (filter (\<lambda>u. \<not> IsLeaf u) (PreOrder a)) + 1 = length (leaf_ids a)"
      "length (filter (\<lambda>u. \<not> IsLeaf u) (PreOrder b)) + 1 = length (leaf_ids b)"
      using Node.IH[of a] Node.IH[of b] inner cs by simp_all
    then show ?thesis by (simp add: cs IsLeaf_def)
  qed
qed

lemma count_filter_append:
  "length (filter P (xs @ ys)) = length (filter P xs) + length (filter P ys)"
  by simp

lemma internal_group_count:
  assumes d: "distinct (PreOrder p)"
    and cp: "Children p = [c, s] \<or> Children p = [s, c]"
    and b: "bifurcating c"
  shows "length (filter (\<lambda>call. covers (position call) r) (internal_group p s c))
           = (if IsLeaf c then 0 else 1) + (if r = c then 1 else 0)"
  using b
proof (cases rule: bifurcating_cases)
  case (leaf i t h)
  then show ?thesis by (simp add: internal_group_def IsLeaf_def)
next
  case (inner c0 c1 i t h)
  have pc: "PreOrder c = c # PreOrder c0 @ PreOrder c1" by (simp add: inner(1))
  have below: "(\<exists>x \<in> set (Children p). y \<in> set (PreOrder x))
                 \<longleftrightarrow> y \<in> set (PreOrder c) \<or> y \<in> set (PreOrder s)" for y
    using cp by auto
  have "distinct (concat (map PreOrder (Children p)))"
    using d by (subst (asm) PreOrder_unfold) simp
  then have dcs: "distinct (PreOrder c)" "distinct (PreOrder s)"
    "set (PreOrder c) \<inter> set (PreOrder s) = {}"
    using cp by auto
  have f1: "c \<notin> set (PreOrder c0)" "c \<notin> set (PreOrder c1)"
    "set (PreOrder c0) \<inter> set (PreOrder c1) = {}"
    using dcs(1) unfolding pc by auto
  have f2: "c \<notin> set (PreOrder s)" "set (PreOrder c0) \<inter> set (PreOrder s) = {}"
    "set (PreOrder c1) \<inter> set (PreOrder s) = {}"
    using dcs(3) unfolding pc by auto
  have g: "internal_group p s c =
     [PCSSCall c False c True p True s False (OnEdge c),
      PCSSCall s False c False c0 False c1 False (UpTheTree p),
      PCSSCall p True c False c0 False c1 False (RootIn s),
      PCSSCall c True c False c0 False c1 False (OnEdge c),
      PCSSCall c1 False c True s False p True (RootIn c0),
      PCSSCall c0 False c True s False p True (RootIn c1)]"
    by (simp add: internal_group_def inner(1))
  have leafc: "\<not> IsLeaf c" by (simp add: IsLeaf_def inner(1))
  consider (self) "r = c" | (left) "r \<in> set (PreOrder c0)" | (right) "r \<in> set (PreOrder c1)"
    | (sis) "r \<in> set (PreOrder s)" | (out) "r \<notin> set (PreOrder c) \<union> set (PreOrder s)"
    unfolding pc by auto
  then show ?thesis
  proof cases
    case self
    then show ?thesis unfolding g using f1 f2 leafc by (simp add: below pc)
  next
    case left
    then have "r \<noteq> c" "r \<notin> set (PreOrder c1)" "r \<notin> set (PreOrder s)" using f1 f2 by auto
    then show ?thesis unfolding g using left leafc by (simp add: below pc)
  next
    case right
    then have "r \<noteq> c" "r \<notin> set (PreOrder c0)" "r \<notin> set (PreOrder s)" using f1 f2 by auto
    then show ?thesis unfolding g using right leafc by (simp add: below pc)
  next
    case sis
    then have "r \<noteq> c" "r \<notin> set (PreOrder c0)" "r \<notin> set (PreOrder c1)" using f1 f2 by auto
    then show ?thesis unfolding g using sis leafc by (simp add: below pc)
  next
    case out
    then have "r \<noteq> c" "r \<notin> set (PreOrder c0)" "r \<notin> set (PreOrder c1)"
      "r \<notin> set (PreOrder s)"
      unfolding pc by auto
    then show ?thesis unfolding g using leafc by (simp add: below pc)
  qed
qed

lemma internal_calls_count:
  assumes "bifurcating v" "distinct (PreOrder v)"
  shows "length (filter (\<lambda>call. covers (position call) r) (internal_calls v))
           = length (filter (\<lambda>u. \<not> IsLeaf u) (concat (map PreOrder (Children v))))
             + count_list (concat (map PreOrder (Children v))) r"
  using assms
proof (induction v)
  case (Node cs i t h)
  let ?v = "Node cs i t h"
  from Node.prems(1) show ?case
  proof (cases rule: bifurcating_cases)
    case (leaf i' t' h')
    then show ?thesis by simp
  next
    case (inner a b i' t' h')
    then have cs: "cs = [a, b]" by simp
    have da: "distinct (PreOrder a)" and db: "distinct (PreOrder b)"
      using Node.prems(2) by (simp_all add: cs)
    note ia = Node.IH[of a, OF _ inner(2) da, unfolded cs, simplified]
    note ib = Node.IH[of b, OF _ inner(3) db, unfolded cs, simplified]
    have ga: "length (filter (\<lambda>call. covers (position call) r) (internal_group ?v b a))
                = (if IsLeaf a then 0 else 1) + (if r = a then 1 else 0)"
      by (rule internal_group_count[OF Node.prems(2) _ inner(2)]) (simp add: cs)
    have gb: "length (filter (\<lambda>call. covers (position call) r) (internal_group ?v a b))
                = (if IsLeaf b then 0 else 1) + (if r = b then 1 else 0)"
      by (rule internal_group_count[OF Node.prems(2) _ inner(3)]) (simp add: cs)
    have ic: "internal_calls ?v
                = internal_group ?v b a @ internal_calls a @
                  internal_group ?v a b @ internal_calls b"
      by (simp add: cs)
    have below: "concat (map PreOrder (Children ?v))
                   = (a # concat (map PreOrder (Children a)))
                     @ (b # concat (map PreOrder (Children b)))"
      by (simp add: cs PreOrder_unfold[of a] PreOrder_unfold[of b])
    show ?thesis
      unfolding ic below filter_append length_append ga gb ia ib
      by (simp add: count_list_append)
  qed
qed

lemma root_group_count:
  assumes d: "distinct (PreOrder node0 @ PreOrder node1 @ PreOrder node2)"
    and r: "r \<in> set (PreOrder node0) \<union> set (PreOrder node1) \<union> set (PreOrder node2)"
    and b: "bifurcating node2"
  shows "length (filter (\<lambda>call. covers (position call) r) (root_group node0 node1 node2))
           = (if IsLeaf node2 then 0 else 1) + (if r = node2 then 1 else 0)"
  using b
proof (cases rule: bifurcating_cases)
  case (leaf i t h)
  then show ?thesis by (simp add: root_group_def IsLeaf_def)
next
  case (inner c0 c1 i t h)
  have pc: "PreOrder node2 = node2 # PreOrder c0 @ PreOrder c1" by (simp add: inner(1))
  have f1: "node2 \<notin> set (PreOrder c0)" "node2 \<notin> set (PreOrder c1)"
    "set (PreOrder c0) \<inter> set (PreOrder c1) = {}"
    using d unfolding pc by auto
  have f2: "set (PreOrder node0) \<inter> set (PreOrder node1) = {}"
    "set (PreOrder node0) \<inter> set (PreOrder node2) = {}"
    "set (PreOrder node1) \<inter> set (PreOrder node2) = {}"
    using d by auto
  have g: "root_group node0 node1 node2 =
     [PCSSCall node2 False node2 True node0 False node1 False (OnEdge node2),
      PCSSCall node0 False node2 False c0 False c1 False (RootIn node1),
      PCSSCall node1 False node2 False c0 False c1 False (RootIn node0),
      PCSSCall node2 True node2 False c0 False c1 False (OnEdge node2),
      PCSSCall c1 False node2 True node0 False node1 False (RootIn c0),
      PCSSCall c0 False node2 True node0 False node1 False (RootIn c1)]"
    by (simp add: root_group_def inner(1))
  have leafc: "\<not> IsLeaf node2" by (simp add: IsLeaf_def inner(1))
  from r consider (self) "r = node2" | (left) "r \<in> set (PreOrder c0)"
    | (right) "r \<in> set (PreOrder c1)"
    | (n0) "r \<in> set (PreOrder node0)" | (n1) "r \<in> set (PreOrder node1)"
    unfolding pc by auto
  then show ?thesis
  proof cases
    case self
    then have "r \<notin> set (PreOrder node0)" "r \<notin> set (PreOrder node1)"
      using f2 PreOrder_self[of node2] by auto
    then show ?thesis unfolding g using self f1 leafc by simp
  next
    case left
    then have "r \<in> set (PreOrder node2)" unfolding pc by simp
    then have "r \<notin> set (PreOrder node0)" "r \<notin> set (PreOrder node1)" using f2 by auto
    moreover have "r \<noteq> node2" "r \<notin> set (PreOrder c1)" using left f1 by auto
    ultimately show ?thesis unfolding g using left leafc by simp
  next
    case right
    then have "r \<in> set (PreOrder node2)" unfolding pc by simp
    then have "r \<notin> set (PreOrder node0)" "r \<notin> set (PreOrder node1)" using f2 by auto
    moreover have "r \<noteq> node2" "r \<notin> set (PreOrder c0)" using right f1 by auto
    ultimately show ?thesis unfolding g using right leafc by simp
  next
    case n0
    then have "r \<notin> set (PreOrder node2)" "r \<notin> set (PreOrder node1)" using f2 by auto
    then have "r \<noteq> node2" "r \<notin> set (PreOrder c0)" "r \<notin> set (PreOrder c1)"
      "r \<notin> set (PreOrder node1)"
      unfolding pc by auto
    then show ?thesis unfolding g using n0 leafc by simp
  next
    case n1
    then have "r \<notin> set (PreOrder node2)" "r \<notin> set (PreOrder node0)" using f2 by auto
    then have "r \<noteq> node2" "r \<notin> set (PreOrder c0)" "r \<notin> set (PreOrder c1)"
      "r \<notin> set (PreOrder node0)"
      unfolding pc by auto
    then show ?thesis unfolding g using n1 leafc by simp
  qed
qed

lemma count_list_member_distinct:
  "distinct xs \<Longrightarrow> r \<in> set xs \<Longrightarrow> count_list xs r = 1"
  by (induction xs) auto

lemma calls_seen_count:
  assumes u: "unrooted_topology t" and r: "r \<in> set (edges t)"
  shows "length (calls_seen_from t r) + 2 = length (leaf_ids t)"
  using u
proof (cases rule: unrooted_topology_children)
  case (1 c0 c1 c2 i tg h)
  let ?cov = "\<lambda>call. covers (position call) r"
  let ?inner = "\<lambda>xs. length (filter (\<lambda>u. \<not> IsLeaf u) xs)"
  let ?b0 = "concat (map PreOrder (Children c0))"
  let ?b1 = "concat (map PreOrder (Children c1))"
  let ?b2 = "concat (map PreOrder (Children c2))"
  have p: "PreOrder t = t # PreOrder c0 @ PreOrder c1 @ PreOrder c2" by (simp add: 1(1))
  have e: "edges t = PreOrder c0 @ PreOrder c1 @ PreOrder c2" by (simp add: edges_def 1(1))
  have de: "distinct (edges t)" using distinct_nodes[OF u] unfolding p e by simp
  have d012: "distinct (PreOrder c0 @ PreOrder c1 @ PreOrder c2)" using de unfolding e .
  have d120: "distinct (PreOrder c1 @ PreOrder c2 @ PreOrder c0)" using d012 by auto
  have d201: "distinct (PreOrder c2 @ PreOrder c0 @ PreOrder c1)" using d012 by auto
  have r012: "r \<in> set (PreOrder c0) \<union> set (PreOrder c1) \<union> set (PreOrder c2)"
    using r unfolding e by auto
  have r120: "r \<in> set (PreOrder c1) \<union> set (PreOrder c2) \<union> set (PreOrder c0)"
    using r012 by auto
  have r201: "r \<in> set (PreOrder c2) \<union> set (PreOrder c0) \<union> set (PreOrder c1)"
    using r012 by auto
  have d0: "distinct (PreOrder c0)" and d1: "distinct (PreOrder c1)"
    and d2: "distinct (PreOrder c2)"
    using d012 by simp_all
  note g2 = root_group_count[OF d012 r012 1(4)]
  note g0 = root_group_count[OF d120 r120 1(2)]
  note g1 = root_group_count[OF d201 r201 1(3)]
  note i0 = internal_calls_count[OF 1(2) d0, of r]
  note i1 = internal_calls_count[OF 1(3) d1, of r]
  note i2 = internal_calls_count[OF 1(4) d2, of r]
  have tc: "topology_calls t
              = root_group c0 c1 c2 @ root_group c1 c2 c0 @ root_group c2 c0 c1 @
                internal_calls c0 @ internal_calls c1 @ internal_calls c2"
    by (simp add: topology_calls_def 1(1))
  have total: "length (calls_seen_from t r)
                 = ((if IsLeaf c2 then 0 else 1) + (if r = c2 then 1 else 0))
                   + ((if IsLeaf c0 then 0 else 1) + (if r = c0 then 1 else 0))
                   + ((if IsLeaf c1 then 0 else 1) + (if r = c1 then 1 else 0))
                   + (?inner ?b0 + count_list ?b0 r)
                   + (?inner ?b1 + count_list ?b1 r)
                   + (?inner ?b2 + count_list ?b2 r)"
    unfolding calls_seen_from_def tc filter_append length_append g0 g1 g2 i0 i1 i2
    by simp
  have s0: "?inner (PreOrder c0) = (if IsLeaf c0 then 0 else 1) + ?inner ?b0"
    by (subst PreOrder_unfold) simp
  have s1: "?inner (PreOrder c1) = (if IsLeaf c1 then 0 else 1) + ?inner ?b1"
    by (subst PreOrder_unfold) simp
  have s2: "?inner (PreOrder c2) = (if IsLeaf c2 then 0 else 1) + ?inner ?b2"
    by (subst PreOrder_unfold) simp
  have k0: "count_list (PreOrder c0) r = (if r = c0 then 1 else 0) + count_list ?b0 r"
    by (subst PreOrder_unfold) auto
  have k1: "count_list (PreOrder c1) r = (if r = c1 then 1 else 0) + count_list ?b1 r"
    by (subst PreOrder_unfold) auto
  have k2: "count_list (PreOrder c2) r = (if r = c2 then 1 else 0) + count_list ?b2 r"
    by (subst PreOrder_unfold) auto
  have "count_list (edges t) r = 1" by (rule count_list_member_distinct[OF de r])
  then have one: "count_list (PreOrder c0) r + count_list (PreOrder c1) r
                    + count_list (PreOrder c2) r = 1"
    unfolding e by (simp add: count_list_append)
  note n0 = subtree_inner_count[OF 1(2)]
  note n1 = subtree_inner_count[OF 1(3)]
  note n2 = subtree_inner_count[OF 1(4)]
  have l: "length (leaf_ids t)
             = length (leaf_ids c0) + length (leaf_ids c1) + length (leaf_ids c2)"
    by (simp add: 1(1))
  have "length (calls_seen_from t r)
          = ?inner (PreOrder c0) + ?inner (PreOrder c1) + ?inner (PreOrder c2)
            + (count_list (PreOrder c0) r + count_list (PreOrder c1) r
               + count_list (PreOrder c2) r)"
    unfolding total s0 s1 s2 k0 k1 k2 by linarith
  then show ?thesis unfolding one l using n0 n1 n2 by linarith
qed

lemma edges_count:
  assumes "unrooted_topology t"
  shows "length (edges t) + 3 = 2 * length (leaf_ids t)"
  using assms
proof (cases rule: unrooted_topology_children)
  case (1 c0 c1 c2 i tg h)
  note n0 = subtree_node_count[OF 1(2)]
  note n1 = subtree_node_count[OF 1(3)]
  note n2 = subtree_node_count[OF 1(4)]
  show ?thesis using n0 n1 n2 by (simp add: edges_def 1(1))
qed

text \<open>
  Claim C2. For an unrooted topology with \<open>n\<close> leaves (three children at the root, two
  at every other inner node, distinct leaf ids below the leaf count, distinct tags),
  the rooted views are produced without failure. There are exactly \<open>2 * n - 3\<close> of
  them, one for each edge of the topology: the edges, each named by the node below
  it, are pairwise different, there are \<open>2 * n - 3\<close> of them, and the views are taken
  at a rearrangement of them. The view at an edge is the rootsplit of this edge
  followed by the keys of the calls of \<open>PCSSPreOrder\<close> whose virtual root position covers
  the edge; these are \<open>n - 2\<close> PCSS keys, as many as a rooted binary tree on \<open>n\<close> leaves has
  inner nodes below its root, so that every view has \<open>n - 1\<close> entries.
\<close>

theorem RootedViews_one_per_edge:
  assumes "unrooted_topology t"
  shows "\<exists>views. RootedViews t = Inr views \<and>
           length views = 2 * length (leaf_ids t) - 3 \<and>
           length (edges t) = 2 * length (leaf_ids t) - 3 \<and>
           distinct (edges t) \<and> mset (edge_nodes t) = mset (edges t) \<and>
           views = map (\<lambda>r. rootsplit_of_edge (LeafCount t) r
                               # map (pcss_key_of_call (LeafCount t)) (calls_seen_from t r))
                       (edge_nodes t) \<and>
           (\<forall>r \<in> set (edge_nodes t). length (calls_seen_from t r) = length (leaf_ids t) - 2) \<and>
           (\<forall>view \<in> set views. length view = length (leaf_ids t) - 1)"
proof -
  let ?views = "map (\<lambda>r. rootsplit_of_edge (LeafCount t) r
                               # map (pcss_key_of_call (LeafCount t)) (calls_seen_from t r))
                       (edge_nodes t)"
  have a: "RootedViews t = Inr ?views" by (rule RootedViews_result[OF assms])
  have c: "length (edges t) = 2 * length (leaf_ids t) - 3"
    using edges_count[OF assms] by simp
  have b: "length ?views = 2 * length (leaf_ids t) - 3"
    using c by (simp add: length_edge_nodes)
  have "distinct (PreOrder t)" by (rule distinct_nodes[OF assms])
  then have d: "distinct (edges t)"
    by (subst (asm) PreOrder_unfold) (simp add: edges_def)
  have e: "mset (edge_nodes t) = mset (edges t)" by (rule mset_edge_nodes)
  have f: "\<forall>r \<in> set (edge_nodes t). length (calls_seen_from t r) = length (leaf_ids t) - 2"
  proof
    fix r assume "r \<in> set (edge_nodes t)"
    then have "r \<in> set (edges t)" unfolding set_edge_nodes .
    from calls_seen_count[OF assms this]
    show "length (calls_seen_from t r) = length (leaf_ids t) - 2" by simp
  qed
  have two: "2 \<le> length (leaf_ids t)"
    using assms
  proof (cases rule: unrooted_topology_children)
    case (1 c0 c1 c2 i tg h)
    have p0: "0 < length (leaf_ids c0)" and p1: "0 < length (leaf_ids c1)"
      using leaf_ids_nonempty by simp_all
    have "length (leaf_ids t)
            = length (leaf_ids c0) + length (leaf_ids c1) + length (leaf_ids c2)"
      by (simp add: 1(1))
    then show ?thesis using p0 p1 by linarith
  qed
  have g: "\<forall>view \<in> set ?views. length view = length (leaf_ids t) - 1"
  proof
    fix view assume "view \<in> set ?views"
    then obtain r where r: "r \<in> set (edge_nodes t)"
      and v: "view = rootsplit_of_edge (LeafCount t) r
                       # map (pcss_key_of_call (LeafCount t)) (calls_seen_from t r)"
      by auto
    have "length view = Suc (length (leaf_ids t) - 2)"
      unfolding v using f r by simp
    then show "length view = length (leaf_ids t) - 1" using two by linarith
  qed
  show ?thesis
    by (intro exI[of _ ?views] conjI) (rule a, rule b, rule c, rule d, rule e, rule refl,
        rule f, rule g)
qed

theorem RootedViews_one_per_edge_witness:
  "unrooted_topology four_taxon_topology \<and> length (leaf_ids four_taxon_topology) = 4 \<and>
   (\<exists>views. RootedViews four_taxon_topology = Inr views \<and> length views = 5 \<and>
      length (edges four_taxon_topology) = 5 \<and>
      (\<forall>view \<in> set views. length view = 3))"
proof -
  have u: "unrooted_topology four_taxon_topology" by code_simp
  have l: "length (leaf_ids four_taxon_topology) = 4"
    by (simp add: four_taxon_topology_def)
  from RootedViews_one_per_edge[OF u] obtain views where
    all: "RootedViews four_taxon_topology = Inr views \<and>
           length views = 2 * length (leaf_ids four_taxon_topology) - 3 \<and>
           length (edges four_taxon_topology) = 2 * length (leaf_ids four_taxon_topology) - 3 \<and>
           distinct (edges four_taxon_topology) \<and>
           mset (edge_nodes four_taxon_topology) = mset (edges four_taxon_topology) \<and>
           views = map (\<lambda>r. rootsplit_of_edge (LeafCount four_taxon_topology) r
                               # map (pcss_key_of_call (LeafCount four_taxon_topology))
                                   (calls_seen_from four_taxon_topology r))
                       (edge_nodes four_taxon_topology) \<and>
           (\<forall>r \<in> set (edge_nodes four_taxon_topology).
              length (calls_seen_from four_taxon_topology r)
                = length (leaf_ids four_taxon_topology) - 2) \<and>
           (\<forall>view \<in> set views. length view = length (leaf_ids four_taxon_topology) - 1)"
    by (elim exE)
  have a: "RootedViews four_taxon_topology = Inr views" by (rule all[THEN conjunct1])
  have b: "length views = 5" using all[THEN conjunct2, THEN conjunct1] unfolding l by simp
  have c: "length (edges four_taxon_topology) = 5"
    using all[THEN conjunct2, THEN conjunct2, THEN conjunct1] unfolding l by simp
  have d: "\<forall>view \<in> set views. length view = 3"
    using all[THEN conjunct2, THEN conjunct2, THEN conjunct2, THEN conjunct2, THEN conjunct2,
              THEN conjunct2, THEN conjunct2]
    unfolding l by simp
  show ?thesis
    by (intro conjI exI[of _ views]) (rule u, rule l, rule a, rule b, rule c, rule d)
qed

end
